theory Spec2Isabelle
  imports Complex_Main
begin

section \<open>Strings and characters\<close>

text \<open>
  The parser of \<^verbatim>\<open>bindings/node/src/index.ts\<close> works on JavaScript strings. A string is
  modelled as a \<^typ>\<open>string\<close>, one \<^typ>\<open>char\<close> per code unit, so the model covers the
  inputs whose code units lie in U+0000 .. U+00FF. The character tests below are those
  of ECMAScript restricted to that range: white space and line terminators are
  U+0009 .. U+000D, U+0020 and U+00A0.
\<close>

definition code :: "char \<Rightarrow> nat" where
  "code c = of_char c"

definition is_digit :: "char \<Rightarrow> bool" where
  "is_digit c \<longleftrightarrow> 48 \<le> code c \<and> code c \<le> 57"

definition is_space :: "char \<Rightarrow> bool" where
  "is_space c \<longleftrightarrow> (9 \<le> code c \<and> code c \<le> 13) \<or> code c = 32 \<or> code c = 160"

definition is_word :: "char \<Rightarrow> bool" where
  "is_word c \<longleftrightarrow> (97 \<le> code c \<and> code c \<le> 122) \<or> (65 \<le> code c \<and> code c \<le> 90)
     \<or> is_digit c \<or> code c = 95"

text \<open>
  \<open>Canonicalize\<close> of the regular-expression semantics (no \<open>u\<close> flag), on code units:
  the upper-case form of a character; \<open>uncanonicalize\<close> gives the other character with
  the same canonical form, if there is one.
\<close>

definition canonicalize :: "nat \<Rightarrow> nat" where
  "canonicalize n =
     (if (97 \<le> n \<and> n \<le> 122) \<or> (224 \<le> n \<and> n \<le> 254 \<and> n \<noteq> 247) then n - 32 else n)"

definition uncanonicalize :: "nat \<Rightarrow> nat" where
  "uncanonicalize n =
     (if (65 \<le> n \<and> n \<le> 90) \<or> (192 \<le> n \<and> n \<le> 222 \<and> n \<noteq> 215) then n + 32 else n)"

text \<open>
  \<open>toLowerCase\<close> and \<open>toUpperCase\<close>. The parser calls them on a capture of \<open>\w+\<close> and
  of \<open>[A-Fa-f0-9]{8}\<close>, so on ASCII text, where they change the letters only.
\<close>

definition toLowerCase :: "string \<Rightarrow> string" where
  "toLowerCase s =
     map (\<lambda>c. if 65 \<le> code c \<and> code c \<le> 90 then char_of (code c + 32) else c) s"

definition toUpperCase :: "string \<Rightarrow> string" where
  "toUpperCase s =
     map (\<lambda>c. if 97 \<le> code c \<and> code c \<le> 122 then char_of (code c - 32) else c) s"

definition trim :: "string \<Rightarrow> string" where
  "trim s = rev (dropWhile is_space (rev (dropWhile is_space s)))"

text \<open>\<open>s.indexOf(t)\<close> and \<open>s.lastIndexOf(t)\<close>; \<open>None\<close> is the result -1.\<close>

definition occurs_at :: "string \<Rightarrow> string \<Rightarrow> nat \<Rightarrow> bool" where
  "occurs_at s t k \<longleftrightarrow> take (length t) (drop k s) = t"

definition indexOf :: "string \<Rightarrow> string \<Rightarrow> nat option" where
  "indexOf s t = List.find (occurs_at s t) [0 ..< Suc (length s)]"

definition lastIndexOf :: "string \<Rightarrow> string \<Rightarrow> nat option" where
  "lastIndexOf s t = List.find (occurs_at s t) (rev [0 ..< Suc (length s)])"

definition includes_str :: "string \<Rightarrow> string \<Rightarrow> bool" where
  "includes_str s t \<longleftrightarrow> indexOf s t \<noteq> None"

text \<open>\<open>xs.join(' ')\<close>.\<close>

fun join_sp :: "string list \<Rightarrow> string" where
  "join_sp [] = []"
| "join_sp [w] = w"
| "join_sp (w # v # ws) = w @ CHR '' '' # join_sp (v # ws)"

text \<open>
  \<open>s.split(/\s+/)\<close>: the pieces of \<open>s\<close> between its maximal runs of white space. A run
  at the start or at the end of \<open>s\<close> leaves an empty piece there, and the empty string
  gives one empty piece.
\<close>

function split_ws :: "string \<Rightarrow> string list" where
  "split_ws [] = [[]]"
| "split_ws (c # cs) =
     (if is_space c then [] # split_ws (dropWhile is_space cs)
      else (case split_ws cs of
              [] \<Rightarrow> [[c]]
            | w # ws \<Rightarrow> (c # w) # ws))"
  by pat_completeness auto
termination
  by (relation "measure length") (auto simp: length_dropWhile_le le_imp_less_Suc)

section \<open>Regular expressions\<close>

text \<open>
  The patterns of the parser use character classes, \<open>^\<close>, \<open>$\<close>, \<open>\b\<close>, sequence,
  alternation, an optional group, greedy repetition of a single character class, and
  capturing groups. The matcher is the backtracking matcher of ECMAScript: it lists the
  ways a pattern matches at a position in priority order, and the first one is the match.
\<close>

datatype citem = Ch char | Rng char char | Digit | Space | WordCh

datatype cclass = OneOf "citem list" | NoneOf "citem list"

datatype regex =
    Atom cclass
  | Eps
  | Bol
  | Eol
  | WordB
  | Seq regex regex
  | Alt regex regex
  | Opt regex
  | Rep nat "nat option" cclass
  | Group nat regex

text \<open>
  Whether a class item holds the code unit \<open>n\<close>, and whether it matches the character
  \<open>x\<close>: under the \<open>i\<close> flag, when it holds a character with the canonical form of \<open>x\<close>.
\<close>

fun item_has :: "citem \<Rightarrow> nat \<Rightarrow> bool" where
  "item_has (Ch a) n = (n = code a)"
| "item_has (Rng lo hi) n = (code lo \<le> n \<and> n \<le> code hi)"
| "item_has Digit n = (48 \<le> n \<and> n \<le> 57)"
| "item_has Space n = ((9 \<le> n \<and> n \<le> 13) \<or> n = 32 \<or> n = 160)"
| "item_has WordCh n =
     ((97 \<le> n \<and> n \<le> 122) \<or> (65 \<le> n \<and> n \<le> 90) \<or> (48 \<le> n \<and> n \<le> 57) \<or> n = 95)"

definition item_match :: "bool \<Rightarrow> citem \<Rightarrow> char \<Rightarrow> bool" where
  "item_match icase it x =
     (if icase
      then item_has it (canonicalize (code x)) \<or> item_has it (uncanonicalize (canonicalize (code x)))
      else item_has it (code x))"

fun cmatch :: "bool \<Rightarrow> cclass \<Rightarrow> char \<Rightarrow> bool" where
  "cmatch icase (OneOf its) x = list_ex (\<lambda>it. item_match icase it x) its"
| "cmatch icase (NoneOf its) x = (\<not> list_ex (\<lambda>it. item_match icase it x) its)"

text \<open>
  A matcher state: the character before the current position (\<open>None\<close> at the start of
  the input), the input from the current position on, and the captures made so far.
\<close>

record mstate =
  prev :: "char option"
  rest :: string
  caps :: "(nat \<times> string) list"

definition word_before :: "mstate \<Rightarrow> bool" where
  "word_before st = (case prev st of None \<Rightarrow> False | Some c \<Rightarrow> is_word c)"

definition word_after :: "mstate \<Rightarrow> bool" where
  "word_after st = (case rest st of [] \<Rightarrow> False | c # _ \<Rightarrow> is_word c)"

text \<open>
  Greedy repetition of a class, between \<open>lo\<close> and \<open>hi\<close> times, from a position with
  \<open>pv\<close> before it: one more character is tried first, stopping here comes second. The
  results are the positions reached, the longest run first.
\<close>

fun greedy :: "(char \<Rightarrow> bool) \<Rightarrow> nat \<Rightarrow> nat option \<Rightarrow> char option \<Rightarrow> string
    \<Rightarrow> (char option \<times> string) list" where
  "greedy p lo hi pv [] = (if lo = 0 then [(pv, [])] else [])"
| "greedy p lo hi pv (x # xs) =
     (if p x \<and> hi \<noteq> Some 0
      then greedy p (lo - 1) (map_option (\<lambda>h. h - 1) hi) (Some x) xs else [])
     @ (if lo = 0 then [(pv, x # xs)] else [])"

fun ms :: "bool \<Rightarrow> regex \<Rightarrow> mstate \<Rightarrow> mstate list" where
  "ms icase (Atom c) st =
     (case rest st of
        [] \<Rightarrow> []
      | x # xs \<Rightarrow> if cmatch icase c x then [st\<lparr>prev := Some x, rest := xs\<rparr>] else [])"
| "ms icase Eps st = [st]"
| "ms icase Bol st = (if prev st = None then [st] else [])"
| "ms icase Eol st = (if rest st = [] then [st] else [])"
| "ms icase WordB st = (if word_before st \<noteq> word_after st then [st] else [])"
| "ms icase (Seq a b) st = concat (map (ms icase b) (ms icase a st))"
| "ms icase (Alt a b) st = ms icase a st @ ms icase b st"
| "ms icase (Opt a) st = ms icase a st @ [st]"
| "ms icase (Rep lo hi c) st =
     map (\<lambda>(pv, r). st\<lparr>prev := pv, rest := r\<rparr>)
       (greedy (cmatch icase c) lo hi (prev st) (rest st))"
| "ms icase (Group n a) st =
     map (\<lambda>st'. st'\<lparr>caps := (n, take (length (rest st) - length (rest st')) (rest st)) # caps st'\<rparr>)
       (ms icase a st)"

text \<open>A \<open>RegExp\<close> object: its pattern and its \<open>i\<close> and \<open>g\<close> flags.\<close>

record regexp =
  pattern :: regex
  ignoreCase :: bool
  globalFlag :: bool

text \<open>
  The result of \<open>re.exec(s)\<close>: the input before the match, the matched text, the input
  after it, and the captures (\<open>match[n]\<close> is \<open>grp m n\<close>, \<open>None\<close> for \<open>undefined\<close>).
\<close>

record rmatch =
  m_pre :: string
  m_text :: string
  m_post :: string
  m_caps :: "(nat \<times> string) list"

definition grp :: "rmatch \<Rightarrow> nat \<Rightarrow> string option" where
  "grp m n = map_of (m_caps m) n"

definition start_state :: "string \<Rightarrow> string \<Rightarrow> mstate" where
  "start_state pre s =
     \<lparr>prev = (if pre = [] then None else Some (last pre)), rest = s, caps = []\<rparr>"

text \<open>
  \<open>scan re pre s\<close> tries the pattern at the start of \<open>s\<close>, then one character further,
  up to the end of the input; \<open>pre\<close> is the input already passed.
\<close>

fun scan :: "regexp \<Rightarrow> string \<Rightarrow> string \<Rightarrow> rmatch option" where
  "scan re pre [] =
     (case ms (ignoreCase re) (pattern re) (start_state pre []) of
        [] \<Rightarrow> None
      | st # _ \<Rightarrow> Some \<lparr>m_pre = pre, m_text = [], m_post = [], m_caps = caps st\<rparr>)"
| "scan re pre (x # xs) =
     (case ms (ignoreCase re) (pattern re) (start_state pre (x # xs)) of
        [] \<Rightarrow> scan re (pre @ [x]) xs
      | st # _ \<Rightarrow>
          Some \<lparr>m_pre = pre,
                m_text = take (length (x # xs) - length (rest st)) (x # xs),
                m_post = rest st, m_caps = caps st\<rparr>)"

definition exec :: "regexp \<Rightarrow> string \<Rightarrow> rmatch option" where
  "exec re s = scan re [] s"

text \<open>
  \<open>s.replace(re, rep)\<close> for a replacement text without \<open>$\<close>. Without the \<open>g\<close> flag the
  first match is replaced. With it, every match is, from left to right: \<open>replace_from\<close>
  walks the input, \<open>skip\<close> counting the characters of the match it is inside of; an
  empty match is replaced and the walk moves one character on.
\<close>

fun replace_from :: "regexp \<Rightarrow> string \<Rightarrow> string \<Rightarrow> nat \<Rightarrow> string \<Rightarrow> string" where
  "replace_from re rep pre skip [] =
     (if skip = 0 \<and> ms (ignoreCase re) (pattern re) (start_state pre []) \<noteq> [] then rep else [])"
| "replace_from re rep pre (Suc k) (x # xs) = replace_from re rep (pre @ [x]) k xs"
| "replace_from re rep pre 0 (x # xs) =
     (case ms (ignoreCase re) (pattern re) (start_state pre (x # xs)) of
        [] \<Rightarrow> x # replace_from re rep (pre @ [x]) 0 xs
      | st # _ \<Rightarrow>
          (let n = length (x # xs) - length (rest st)
           in if n = 0 then rep @ x # replace_from re rep (pre @ [x]) 0 xs
              else rep @ replace_from re rep (pre @ [x]) (n - 1) xs))"

definition replace :: "string \<Rightarrow> regexp \<Rightarrow> string \<Rightarrow> string" where
  "replace s re rep =
     (if globalFlag re then replace_from re rep [] 0 s
      else (case exec re s of
              None \<Rightarrow> s
            | Some m \<Rightarrow> m_pre m @ rep @ m_post m))"

section \<open>The parser\<close>

subsection \<open>Result types\<close>

text \<open>
  A JavaScript number as \<open>parseInt\<close> returns it: \<open>NaN\<close>, an integer that a double
  holds, or an infinity. The sign of a zero is left out: the program compares the
  numbers and returns them, and does nothing else with them.
\<close>

datatype jsnum = NaN | Num int | PosInf | NegInf

datatype EpisodeSpec =
    Single jsnum
  | Range_ep jsnum jsnum
  | Multi "jsnum list"
  | Versioned jsnum jsnum

datatype Resolution = SD480 | HD720 | FHD1080 | UHD2160

datatype VideoCodec = H264 | HEVC | AV1 | VP9 | MPEG4

datatype AudioCodec = FLAC | AAC | Opus | AC3 | DTS | MP3 | Vorbis | TrueHD | EAAC

datatype MediaSource = BluRayRemux | BluRay | WebDL | WebRip | HDTV | DVD | LaserDisc | VHS

datatype ParseMode = Full | Light | Auto

record ParseResult =
  input :: string
  title :: "string option"
  group :: "string option"
  episode :: "EpisodeSpec option"
  season :: "jsnum option"
  resolution :: "Resolution option"
  video_codec :: "VideoCodec option"
  audio_codec :: "AudioCodec option"
  source :: "MediaSource option"
  year :: "jsnum option"
  crc32 :: "string option"
  extension :: "string option"
  version :: "jsnum option"
  confidence :: real
  parse_mode :: ParseMode

text \<open>
  What the code can throw: an \<open>Error\<close> with its message, and the \<open>TypeError\<close> of a
  method call on an \<open>undefined\<close> capture.
\<close>

datatype error = Error string | TypeError

subsection \<open>Numbers\<close>

definition digits_val :: "string \<Rightarrow> int" where
  "digits_val ds = foldl (\<lambda>a c. 10 * a + int (code c - 48)) 0 ds"

text \<open>
  The double nearest to a natural number. Below \<open>2^53\<close> every number is a double.
  Beyond, a double keeps the 53 leading bits: \<open>bit_len n\<close> is the number of bits of
  \<open>n\<close>, the \<open>e\<close> bits below the leading 53 are rounded away, to the nearest and at a
  tie to the even one, and a result of \<open>2^1024\<close> or more is no double: \<open>None\<close> stands
  for the overflow.
\<close>

function bit_len :: "nat \<Rightarrow> nat" where
  "bit_len n = (if n = 0 then 0 else Suc (bit_len (n div 2)))"
  by pat_completeness auto
termination
  by (relation "measure id") auto

declare bit_len.simps [simp del]

definition double_of_nat :: "nat \<Rightarrow> nat option" where
  "double_of_nat n =
     (if n < 2 ^ 53 then Some n
      else
        (let e = bit_len n - 53;
             q = n div 2 ^ e;
             r = n mod 2 ^ e;
             h = 2 ^ (e - 1);
             m = (if h < r \<or> (r = h \<and> odd q) then q + 1 else q)
         in if 2 ^ 1024 \<le> m * 2 ^ e then None else Some (m * 2 ^ e)))"

text \<open>The number value of an integer: the nearest double, or an infinity.\<close>

definition to_double :: "int \<Rightarrow> jsnum" where
  "to_double v =
     (if v < 0
      then (case double_of_nat (nat (- v)) of None \<Rightarrow> NegInf | Some m \<Rightarrow> Num (- int m))
      else (case double_of_nat (nat v) of None \<Rightarrow> PosInf | Some m \<Rightarrow> Num (int m)))"

text \<open>
  \<open>parseInt(x, 10)\<close>: leading white space is skipped, a sign is read, and the longest
  run of digits that follows is the value, as the number nearest to it; with no digit
  there the result is \<open>NaN\<close>, as it is for \<open>undefined\<close>. The value of the run is
  rounded as a whole, which is what V8 does; ECMAScript lets an implementation read
  the digits after the 20th as zeros.
\<close>

definition parseInt10 :: "string option \<Rightarrow> jsnum" where
  "parseInt10 x =
     (case x of
        None \<Rightarrow> NaN
      | Some s \<Rightarrow>
          (let t = dropWhile is_space s;
               neg = (t \<noteq> [] \<and> hd t = CHR ''-'');
               u = (if t \<noteq> [] \<and> (hd t = CHR ''-'' \<or> hd t = CHR ''+'') then tl t else t);
               ds = takeWhile is_digit u
           in if ds = [] then NaN
              else to_double (if neg then - digits_val ds else digits_val ds)))"

text \<open>The comparison \<open>a < b\<close> of two numbers: false when either is \<open>NaN\<close>.\<close>

fun num_less :: "jsnum \<Rightarrow> jsnum \<Rightarrow> bool" where
  "num_less (Num a) (Num b) = (a < b)"
| "num_less (Num a) PosInf = True"
| "num_less NegInf (Num b) = True"
| "num_less NegInf PosInf = True"
| "num_less _ _ = False"

subsection \<open>The patterns of \<open>JsHeuristicParser\<close>\<close>

fun seqs :: "regex list \<Rightarrow> regex" where
  "seqs [] = Eps"
| "seqs [r] = r"
| "seqs (r # rs) = Seq r (seqs rs)"

definition lit :: "char \<Rightarrow> regex" where
  "lit c = Atom (OneOf [Ch c])"

definition optional :: "cclass \<Rightarrow> regex" where
  "optional c = Rep 0 (Some 1) c"

definition star :: "cclass \<Rightarrow> regex" where
  "star c = Rep 0 None c"

definition plus :: "cclass \<Rightarrow> regex" where
  "plus c = Rep 1 None c"

text \<open>\<^verbatim>\<open>/1080p|720p|480p|2160p/i\<close>; the class declares it and reads it nowhere.\<close>

definition reResolution :: regexp where
  "reResolution =
     \<lparr>pattern =
        Alt (seqs (map lit ''1080p''))
          (Alt (seqs (map lit ''720p''))
            (Alt (seqs (map lit ''480p'')) (seqs (map lit ''2160p'')))),
      ignoreCase = True, globalFlag = False\<rparr>"

text \<open>\<^verbatim>\<open>/^\[([^\]]+)\]/\<close>\<close>

definition reGroup :: regexp where
  "reGroup =
     \<lparr>pattern =
        seqs [Bol, lit CHR ''['', Group 1 (plus (NoneOf [Ch CHR '']''])), lit CHR '']''],
      ignoreCase = False, globalFlag = False\<rparr>"

text \<open>The common start \<^verbatim>\<open>(?:[\s\-.])(?:[Ee]p?\.?)?\s*\<close> of the three episode patterns.\<close>

definition ep_prefix :: "regex list" where
  "ep_prefix =
     [Atom (OneOf [Space, Ch CHR ''-'', Ch CHR ''.'']),
      Opt (seqs [Atom (OneOf [Ch CHR ''E'', Ch CHR ''e'']),
                 optional (OneOf [Ch CHR ''p'']),
                 optional (OneOf [Ch CHR ''.''])]),
      star (OneOf [Space])]"

text \<open>\<^verbatim>\<open>/(?:[\s\-.])(?:[Ee]p?\.?)?\s*(\d{1,4})(?:\b|v\d|[^\d])/\<close>\<close>

definition reEpisode :: regexp where
  "reEpisode =
     \<lparr>pattern =
        seqs (ep_prefix @
          [Group 1 (Rep 1 (Some 4) (OneOf [Digit])),
           Alt WordB (Alt (Seq (lit CHR ''v'') (Atom (OneOf [Digit]))) (Atom (NoneOf [Digit])))]),
      ignoreCase = False, globalFlag = False\<rparr>"

text \<open>\<^verbatim>\<open>/(?:[\s\-.])(?:[Ee]p?\.?)?\s*(\d{1,4})v(\d+)/i\<close>\<close>

definition reEpisodeV :: regexp where
  "reEpisodeV =
     \<lparr>pattern =
        seqs (ep_prefix @
          [Group 1 (Rep 1 (Some 4) (OneOf [Digit])),
           lit CHR ''v'',
           Group 2 (plus (OneOf [Digit]))]),
      ignoreCase = True, globalFlag = False\<rparr>"

text \<open>\<^verbatim>\<open>/(?:[\s\-.])(?:[Ee]p?\.?)?\s*(\d{1,4})\s*[-~]\s*(\d{1,4})/i\<close>\<close>

definition reEpisodeRange :: regexp where
  "reEpisodeRange =
     \<lparr>pattern =
        seqs (ep_prefix @
          [Group 1 (Rep 1 (Some 4) (OneOf [Digit])),
           star (OneOf [Space]),
           Atom (OneOf [Ch CHR ''-'', Ch CHR ''~'']),
           star (OneOf [Space]),
           Group 2 (Rep 1 (Some 4) (OneOf [Digit]))]),
      ignoreCase = True, globalFlag = False\<rparr>"

text \<open>\<^verbatim>\<open>/(?:^|[\s\-])S(\d+)/i\<close>\<close>

definition reSeason :: regexp where
  "reSeason =
     \<lparr>pattern =
        seqs [Alt Bol (Atom (OneOf [Space, Ch CHR ''-''])),
              lit CHR ''S'',
              Group 1 (plus (OneOf [Digit]))],
      ignoreCase = True, globalFlag = False\<rparr>"

text \<open>\<^verbatim>\<open>/\((\d{4})\)/\<close>\<close>

definition reYear :: regexp where
  "reYear =
     \<lparr>pattern =
        seqs [lit CHR ''('', Group 1 (Rep 4 (Some 4) (OneOf [Digit])), lit CHR '')''],
      ignoreCase = False, globalFlag = False\<rparr>"

text \<open>\<^verbatim>\<open>/\.(\w+)$/\<close>\<close>

definition reExtension :: regexp where
  "reExtension =
     \<lparr>pattern = seqs [lit CHR ''.'', Group 1 (plus (OneOf [WordCh])), Eol],
      ignoreCase = False, globalFlag = False\<rparr>"

text \<open>\<^verbatim>\<open>/\[([A-Fa-f0-9]{8})\]/\<close>\<close>

definition reCrc32 :: regexp where
  "reCrc32 =
     \<lparr>pattern =
        seqs [lit CHR ''['',
              Group 1 (Rep 8 (Some 8)
                (OneOf [Rng CHR ''A'' CHR ''F'', Rng CHR ''a'' CHR ''f'', Rng CHR ''0'' CHR ''9''])),
              lit CHR '']''],
      ignoreCase = False, globalFlag = False\<rparr>"

text \<open>
  The patterns written inside \<open>extractTitle\<close>: \<^verbatim>\<open>/\[[^\]]*\]/g\<close>, \<^verbatim>\<open>/\([^\)]*\)/g\<close>,
  \<^verbatim>\<open>/[._]/g\<close> and \<^verbatim>\<open>/-/g\<close>.
\<close>

definition reBracketed :: regexp where
  "reBracketed =
     \<lparr>pattern = seqs [lit CHR ''['', star (NoneOf [Ch CHR '']'']), lit CHR '']''],
      ignoreCase = False, globalFlag = True\<rparr>"

definition reParenthesized :: regexp where
  "reParenthesized =
     \<lparr>pattern = seqs [lit CHR ''('', star (NoneOf [Ch CHR '')'']), lit CHR '')''],
      ignoreCase = False, globalFlag = True\<rparr>"

definition reDotUnderscore :: regexp where
  "reDotUnderscore =
     \<lparr>pattern = Atom (OneOf [Ch CHR ''.'', Ch CHR ''_'']),
      ignoreCase = False, globalFlag = True\<rparr>"

definition reDash :: regexp where
  "reDash = \<lparr>pattern = lit CHR ''-'', ignoreCase = False, globalFlag = True\<rparr>"

subsection \<open>The field extractors\<close>

text \<open>
  \<open>match[1].trim()\<close>, \<open>match[1].toLowerCase()\<close> and \<open>match[1].toUpperCase()\<close> throw a
  \<open>TypeError\<close> when the capture is \<open>undefined\<close>.
\<close>

definition extractGroup :: "string \<Rightarrow> error + string option" where
  "extractGroup inp =
     (case exec reGroup inp of
        None \<Rightarrow> Inr None
      | Some m \<Rightarrow> (case grp m 1 of None \<Rightarrow> Inl TypeError | Some g \<Rightarrow> Inr (Some (trim g))))"

definition extractExtension :: "string \<Rightarrow> error + string option" where
  "extractExtension inp =
     (case exec reExtension inp of
        None \<Rightarrow> Inr None
      | Some m \<Rightarrow> (case grp m 1 of None \<Rightarrow> Inl TypeError | Some e \<Rightarrow> Inr (Some (toLowerCase e))))"

definition extractCrc32 :: "string \<Rightarrow> error + string option" where
  "extractCrc32 inp =
     (case exec reCrc32 inp of
        None \<Rightarrow> Inr None
      | Some m \<Rightarrow> (case grp m 1 of None \<Rightarrow> Inl TypeError | Some h \<Rightarrow> Inr (Some (toUpperCase h))))"

definition extractResolution :: "string \<Rightarrow> Resolution option" where
  "extractResolution inp =
     (if includes_str inp ''2160p'' \<or> includes_str inp ''2160i'' then Some UHD2160
      else if includes_str inp ''1080p'' \<or> includes_str inp ''1080i'' then Some FHD1080
      else if includes_str inp ''720p'' \<or> includes_str inp ''720i'' then Some HD720
      else if includes_str inp ''480p'' \<or> includes_str inp ''480i'' then Some SD480
      else None)"

definition extractSeason :: "string \<Rightarrow> jsnum option" where
  "extractSeason inp =
     (case exec reSeason inp of None \<Rightarrow> None | Some m \<Rightarrow> Some (parseInt10 (grp m 1)))"

definition extractYear :: "string \<Rightarrow> jsnum option" where
  "extractYear inp =
     (case exec reYear inp of None \<Rightarrow> None | Some m \<Rightarrow> Some (parseInt10 (grp m 1)))"

text \<open>The single-episode attempt, the last of the three in \<open>extractEpisode\<close>.\<close>

definition single_attempt :: "string \<Rightarrow> EpisodeSpec option" where
  "single_attempt inp =
     (case exec reEpisode inp of
        None \<Rightarrow> None
      | Some m \<Rightarrow> Some (Single (parseInt10 (grp m 1))))"

definition extractEpisode :: "string \<Rightarrow> EpisodeSpec option" where
  "extractEpisode inp =
     (case exec reEpisodeV inp of
        Some m \<Rightarrow> Some (Versioned (parseInt10 (grp m 1)) (parseInt10 (grp m 2)))
      | None \<Rightarrow>
          (case exec reEpisodeRange inp of
             Some m \<Rightarrow>
               (let start = parseInt10 (grp m 1); end' = parseInt10 (grp m 2)
                in if num_less start end' then Some (Range_ep start end')
                   else single_attempt inp)
           | None \<Rightarrow> single_attempt inp))"

subsection \<open>Title and confidence\<close>

text \<open>The truth value of a \<open>string | null\<close>: \<open>null\<close> and the empty string are false.\<close>

definition truthy :: "string option \<Rightarrow> bool" where
  "truthy x = (case x of None \<Rightarrow> False | Some s \<Rightarrow> s \<noteq> [])"

text \<open>
  The last step of \<open>extractTitle\<close>, under its comment \<open>Clean up\<close>: dots, underscores
  and dashes become spaces, the text is split at white space, the empty pieces are
  dropped, and the rest is joined with single spaces and trimmed.
\<close>

definition clean_up :: "string \<Rightarrow> string" where
  "clean_up work =
     trim (join_sp (filter (\<lambda>w. w \<noteq> [])
       (split_ws (replace (replace work reDotUnderscore '' '') reDash '' ''))))"

definition extractTitle :: "string \<Rightarrow> ParseResult \<Rightarrow> string option" where
  "extractTitle inp result =
     (let work0 = inp;
          work1 = (if truthy (group result)
                   then (case indexOf work0 '']'' of
                           None \<Rightarrow> work0
                         | Some groupIdx \<Rightarrow> drop (groupIdx + 1) work0)
                   else work0);
          work2 = (case extension result of
                     None \<Rightarrow> work1
                   | Some ext \<Rightarrow>
                       if ext = [] then work1
                       else (case lastIndexOf work1 (CHR ''.'' # ext) of
                               None \<Rightarrow> work1
                             | Some extPos \<Rightarrow> take extPos work1));
          work3 = replace work2 reEpisodeV '' '';
          work4 = replace work3 reEpisodeRange '' '';
          work5 = replace work4 reEpisode '' '';
          work6 = replace work5 reSeason '' '';
          work7 = replace work6 reYear '' '';
          work8 = replace work7 reBracketed '' '';
          work9 = replace work8 reParenthesized '' '';
          cleaned = clean_up work9
      in if cleaned = [] then None else Some cleaned)"

text \<open>
  \<open>if (result.x)\<close> in \<open>computeConfidence\<close>: a string field counts when it is neither
  \<open>null\<close> nor empty, an episode object or an enumeration value whenever it is not
  \<open>null\<close>. The quotient is the exact one; the code's is the double nearest to it.
\<close>

definition computeConfidence :: "ParseResult \<Rightarrow> real" where
  "computeConfidence result =
     (let fieldsPresent0 = (0::nat);
          fieldsTotal0 = (7::nat);
          fieldsPresent1 = (if truthy (title result) then fieldsPresent0 + 2 else fieldsPresent0);
          fieldsTotal = (if truthy (title result) then fieldsTotal0 + 1 else fieldsTotal0);
          fieldsPresent2 = (if truthy (group result) then fieldsPresent1 + 1 else fieldsPresent1);
          fieldsPresent3 = (if episode result \<noteq> None then fieldsPresent2 + 1 else fieldsPresent2);
          fieldsPresent4 = (if resolution result \<noteq> None then fieldsPresent3 + 1 else fieldsPresent3);
          fieldsPresent5 = (if video_codec result \<noteq> None then fieldsPresent4 + 1 else fieldsPresent4);
          fieldsPresent6 = (if audio_codec result \<noteq> None then fieldsPresent5 + 1 else fieldsPresent5);
          fieldsPresent = (if source result \<noteq> None then fieldsPresent6 + 1 else fieldsPresent6)
      in min (real fieldsPresent / real fieldsTotal) 1)"

subsection \<open>\<open>JsHeuristicParser.parse\<close>\<close>

definition emptyResult :: "string \<Rightarrow> ParseResult" where
  "emptyResult trimmed =
     \<lparr>input = trimmed, title = None, group = None, episode = None, season = None,
      resolution = None, video_codec = None, audio_codec = None, source = None,
      year = None, crc32 = None, extension = None, version = None,
      confidence = 0, parse_mode = Light\<rparr>"

definition js_parse :: "string \<Rightarrow> error + ParseResult" where
  "js_parse inp =
     (let trimmed = trim inp in
      if trimmed = [] then Inl (Error ''input is empty or whitespace-only'')
      else
        (case extractGroup trimmed of
           Inl e \<Rightarrow> Inl e
         | Inr g \<Rightarrow>
        (case extractExtension trimmed of
           Inl e \<Rightarrow> Inl e
         | Inr ext \<Rightarrow>
        (case extractCrc32 trimmed of
           Inl e \<Rightarrow> Inl e
         | Inr crc \<Rightarrow>
             (let result1 = (emptyResult trimmed)
                    \<lparr>group := g, extension := ext, crc32 := crc,
                     resolution := extractResolution trimmed,
                     season := extractSeason trimmed,
                     year := extractYear trimmed,
                     episode := extractEpisode trimmed\<rparr>;
                  result2 = result1\<lparr>title := extractTitle trimmed result1\<rparr>
              in Inr (result2\<lparr>confidence := computeConfidence result2\<rparr>))))))"

subsection \<open>\<open>HeuristicParser\<close>\<close>

text \<open>
  The exported class, with the JavaScript parser behind it (\<open>useNative\<close> false: the
  native addon is no part of these sources). Its arguments are typed, so the
  \<open>typeof\<close> and \<open>Array.isArray\<close> tests hold.
\<close>

definition parse :: "string \<Rightarrow> error + ParseResult" where
  "parse inp =
     (if trim inp = [] then Inl (Error ''Input must be a non-empty string'')
      else js_parse inp)"

text \<open>\<open>inputs.map(input => this.parse(input))\<close>: the first throw ends the whole call.\<close>

fun parseBatch :: "string list \<Rightarrow> error + ParseResult list" where
  "parseBatch [] = Inr []"
| "parseBatch (inp # inps) =
     (case parse inp of
        Inl e \<Rightarrow> Inl e
      | Inr r \<Rightarrow> (case parseBatch inps of Inl e \<Rightarrow> Inl e | Inr rs \<Rightarrow> Inr (r # rs)))"

section \<open>Notions of the statements and proofs\<close>

text \<open>
  The \<open>EmptyInput\<close> condition of the specification is an \<open>Error\<close> thrown with one of
  the two messages the code has for an input that is empty once trimmed.
\<close>

definition is_EmptyInput :: "error \<Rightarrow> bool" where
  "is_EmptyInput e \<longleftrightarrow>
     e = Error ''Input must be a non-empty string'' \<or> e = Error ''input is empty or whitespace-only''"

text \<open>The numbers of the capturing groups of a pattern.\<close>

fun groups :: "regex \<Rightarrow> nat list" where
  "groups (Seq a b) = groups a @ groups b"
| "groups (Alt a b) = groups a @ groups b"
| "groups (Opt a) = groups a"
| "groups (Group n a) = n # groups a"
| "groups _ = []"

text \<open>
  The invariants of an \<open>EpisodeSpec\<close>. \<open>int_nonneg\<close> and \<open>at_least_one\<close> hold of the
  integers from 0 and from 1 on, and of no other number; \<open>nonneg\<close> holds of the numbers
  from 0 on, \<open>Infinity\<close> among them. \<open>spec_episode_invariant\<close> is the invariant the
  specification states: a single episode is an integer of at least 0, a range has
  \<open>start < end\<close>, a list of episodes is not empty, a versioned episode is an integer
  of at least 0 and its version an integer of at least 1. \<open>episode_invariant\<close> asks of
  the version that it is a number of at least 0, and of the two ends of a range that
  they are integers of at least 0.
\<close>

fun int_nonneg :: "jsnum \<Rightarrow> bool" where
  "int_nonneg (Num n) = (0 \<le> n)"
| "int_nonneg _ = False"

fun at_least_one :: "jsnum \<Rightarrow> bool" where
  "at_least_one (Num n) = (1 \<le> n)"
| "at_least_one _ = False"

fun nonneg :: "jsnum \<Rightarrow> bool" where
  "nonneg (Num n) = (0 \<le> n)"
| "nonneg PosInf = True"
| "nonneg _ = False"

fun spec_episode_invariant :: "EpisodeSpec \<Rightarrow> bool" where
  "spec_episode_invariant (Single e) = int_nonneg e"
| "spec_episode_invariant (Range_ep a b) = num_less a b"
| "spec_episode_invariant (Multi es) = (es \<noteq> [])"
| "spec_episode_invariant (Versioned e v) = (int_nonneg e \<and> at_least_one v)"

fun episode_invariant :: "EpisodeSpec \<Rightarrow> bool" where
  "episode_invariant (Single e) = int_nonneg e"
| "episode_invariant (Range_ep a b) = (int_nonneg a \<and> int_nonneg b \<and> num_less a b)"
| "episode_invariant (Multi es) = (es \<noteq> [])"
| "episode_invariant (Versioned e v) = (int_nonneg e \<and> nonneg v)"

text \<open>Substring containment: \<open>t\<close> occurs in \<open>s\<close>.\<close>

definition contains :: "string \<Rightarrow> string \<Rightarrow> bool" where
  "contains s t \<longleftrightarrow> (\<exists>u v. s = u @ t @ v)"

text \<open>
  The confidence as the specification words it, a field counting when it is present
  (not \<open>None\<close>); and as the code computes it, where a title and a group count when
  they are neither \<open>null\<close> nor empty.
\<close>

definition spec_numerator :: "ParseResult \<Rightarrow> nat" where
  "spec_numerator r =
     (if title r \<noteq> None then 2 else 0) + (if group r \<noteq> None then 1 else 0)
     + (if episode r \<noteq> None then 1 else 0) + (if resolution r \<noteq> None then 1 else 0)
     + (if video_codec r \<noteq> None then 1 else 0) + (if audio_codec r \<noteq> None then 1 else 0)
     + (if source r \<noteq> None then 1 else 0)"

definition spec_denominator :: "ParseResult \<Rightarrow> nat" where
  "spec_denominator r = (if title r \<noteq> None then 8 else 7)"

definition spec_confidence :: "ParseResult \<Rightarrow> real" where
  "spec_confidence r = min (real (spec_numerator r) / real (spec_denominator r)) 1"

definition numerator :: "ParseResult \<Rightarrow> nat" where
  "numerator r =
     (if truthy (title r) then 2 else 0) + (if truthy (group r) then 1 else 0)
     + (if episode r \<noteq> None then 1 else 0) + (if resolution r \<noteq> None then 1 else 0)
     + (if video_codec r \<noteq> None then 1 else 0) + (if audio_codec r \<noteq> None then 1 else 0)
     + (if source r \<noteq> None then 1 else 0)"

definition denominator :: "ParseResult \<Rightarrow> nat" where
  "denominator r = (if truthy (title r) then 8 else 7)"

text \<open>
  What the title proofs need to say about a text: \<open>nopair a b s\<close>, no \<open>a\<close> in \<open>s\<close> has a
  \<open>b\<close> somewhere after it; \<open>good_words ws\<close>, the words are not empty and hold no white
  space; and the common form of the two bracket patterns.
\<close>

fun nopair :: "char \<Rightarrow> char \<Rightarrow> string \<Rightarrow> bool" where
  "nopair a b [] = True"
| "nopair a b (x # xs) = ((x = a \<longrightarrow> b \<notin> set xs) \<and> nopair a b xs)"

definition good_words :: "string list \<Rightarrow> bool" where
  "good_words ws \<longleftrightarrow> (\<forall>w\<in>set ws. w \<noteq> [] \<and> (\<forall>c\<in>set w. \<not> is_space c))"

definition bracket_pat :: "char \<Rightarrow> char \<Rightarrow> regex" where
  "bracket_pat a b = seqs [lit a, star (NoneOf [Ch b]), lit b]"

section \<open>Facts about the matcher\<close>

text \<open>The equations that evaluate the parser on a given input.\<close>

lemmas ev = code_def is_digit_def is_space_def is_word_def canonicalize_def uncanonicalize_def
  item_match_def word_before_def word_after_def start_state_def exec_def lit_def optional_def
  star_def plus_def ep_prefix_def reEpisodeV_def reEpisode_def reEpisodeRange_def reSeason_def
  reYear_def reGroup_def reExtension_def reCrc32_def reBracketed_def reParenthesized_def
  reDotUnderscore_def reDash_def replace_def trim_def indexOf_def lastIndexOf_def
  includes_str_def occurs_at_def grp_def parseInt10_def digits_val_def to_double_def
  double_of_nat_def

lemma greedy_sound:
  "(pv', r') \<in> set (greedy p lo hi pv xs) \<Longrightarrow>
     \<exists>w. xs = w @ r' \<and> list_all p w \<and> lo \<le> length w \<and> (\<forall>h. hi = Some h \<longrightarrow> length w \<le> h)
       \<and> pv' = (if w = [] then pv else Some (last w))"
proof (induction xs arbitrary: lo hi pv)
  case Nil
  then show ?case by (auto split: if_splits)
next
  case (Cons x xs)
  from Cons.prems consider
    (more) "p x" "hi \<noteq> Some 0"
      "(pv', r') \<in> set (greedy p (lo - 1) (map_option (\<lambda>h. h - 1) hi) (Some x) xs)"
    | (stop) "lo = 0" "pv' = pv" "r' = x # xs"
    by (auto split: if_splits)
  then show ?case
  proof cases
    case more
    from Cons.IH [OF more(3)] obtain w where w: "xs = w @ r'" "list_all p w" "lo - 1 \<le> length w"
      "\<forall>h. map_option (\<lambda>h. h - 1) hi = Some h \<longrightarrow> length w \<le> h"
      "pv' = (if w = [] then Some x else Some (last w))"
      by blast
    have "\<forall>h. hi = Some h \<longrightarrow> length (x # w) \<le> h"
      using w(4) more(2) by (cases hi) auto
    with w more(1) show ?thesis
      by (intro exI [of _ "x # w"]) auto
  next
    case stop
    then show ?thesis by (intro exI [of _ "[]"]) auto
  qed
qed

lemma ms_suffix: "st' \<in> set (ms i r st) \<Longrightarrow> \<exists>w. rest st = w @ rest st'"
proof (induction r arbitrary: st st')
  case (Atom c)
  show ?case
  proof (cases "rest st")
    case Nil
    with Atom show ?thesis by simp
  next
    case (Cons x xs)
    with Atom have "st' = st\<lparr>prev := Some x, rest := xs\<rparr>" by (simp split: if_splits)
    with Cons show ?thesis by (intro exI [of _ "[x]"]) simp
  qed
next
  case (Seq a b)
  then obtain mid where "mid \<in> set (ms i a st)" "st' \<in> set (ms i b mid)" by auto
  with Seq.IH show ?case by (metis append.assoc)
next
  case (Rep lo hi c)
  then show ?case by (auto dest!: greedy_sound)
next
  case (Group n a)
  then show ?case by auto
qed (auto split: if_splits)

lemma scan_Some:
  "scan re pre s = Some m \<Longrightarrow>
     \<exists>u v st sts. s = u @ v \<and> m_pre m = pre @ u
        \<and> ms (ignoreCase re) (pattern re) (start_state (pre @ u) v) = st # sts
        \<and> v = m_text m @ m_post m \<and> m_post m = rest st \<and> m_caps m = caps st"
proof (induction s arbitrary: pre)
  case Nil
  then obtain st sts where st: "ms (ignoreCase re) (pattern re) (start_state pre []) = st # sts"
    and m: "m = \<lparr>m_pre = pre, m_text = [], m_post = [], m_caps = caps st\<rparr>"
    by (auto split: list.splits)
  from st have "st \<in> set (ms (ignoreCase re) (pattern re) (start_state pre []))" by simp
  from ms_suffix [OF this] have "rest st = []" by (simp add: start_state_def)
  with st m show ?case by (intro exI [of _ "[]"] exI [of _ "[]"] exI [of _ st] exI [of _ sts]) simp
next
  case (Cons x xs)
  show ?case
  proof (cases "ms (ignoreCase re) (pattern re) (start_state pre (x # xs))")
    case Nil
    with Cons.prems have "scan re (pre @ [x]) xs = Some m" by simp
    from Cons.IH [OF this] obtain u v st sts where
      "xs = u @ v" "m_pre m = (pre @ [x]) @ u"
      "ms (ignoreCase re) (pattern re) (start_state ((pre @ [x]) @ u) v) = st # sts"
      "v = m_text m @ m_post m" "m_post m = rest st" "m_caps m = caps st" by blast
    then show ?thesis by (intro exI [of _ "x # u"] exI [of _ v] exI [of _ st] exI [of _ sts]) auto
  next
    case (Cons st sts)
    then have "st \<in> set (ms (ignoreCase re) (pattern re) (start_state pre (x # xs)))" by simp
    from ms_suffix [OF this] obtain w where w: "x # xs = w @ rest st" by (auto simp: start_state_def)
    from Cons Cons.prems have m: "m = \<lparr>m_pre = pre, m_text = take (length (x # xs) - length (rest st)) (x # xs),
                m_post = rest st, m_caps = caps st\<rparr>" by simp
    have "take (length (x # xs) - length (rest st)) (x # xs) = w" using w by (metis add_diff_cancel_right' append_eq_conv_conj length_append)
    with w m Cons show ?thesis by (intro exI [of _ "[]"] exI [of _ "x # xs"] exI [of _ st] exI [of _ sts]) auto
  qed
qed


lemma exec_Some:
  assumes "exec re s = Some m"
  shows "\<exists>st. st \<in> set (ms (ignoreCase re) (pattern re) (start_state (m_pre m) (m_text m @ m_post m)))
            \<and> rest st = m_post m \<and> caps st = m_caps m"
    and "s = m_pre m @ m_text m @ m_post m"
proof -
  from assms have "scan re [] s = Some m" by (simp add: exec_def)
  from scan_Some [OF this] obtain u v st sts where *: "s = u @ v" "m_pre m = u"
    "ms (ignoreCase re) (pattern re) (start_state u v) = st # sts"
    "v = m_text m @ m_post m" "m_post m = rest st" "m_caps m = caps st"
    by auto
  from *(3) have "st \<in> set (ms (ignoreCase re) (pattern re) (start_state u v))" by simp
  with * show "\<exists>st. st \<in> set (ms (ignoreCase re) (pattern re) (start_state (m_pre m) (m_text m @ m_post m)))
            \<and> rest st = m_post m \<and> caps st = m_caps m" by auto
  from * show "s = m_pre m @ m_text m @ m_post m" by simp
qed

lemma reGroup_caps:
  "st \<in> set (ms False (pattern reGroup) st0) \<Longrightarrow> \<exists>g. map_of (caps st) 1 = Some g"
  by (auto simp: reGroup_def lit_def plus_def split: list.splits if_splits)

lemma reExtension_caps:
  "st \<in> set (ms False (pattern reExtension) st0) \<Longrightarrow> \<exists>g. map_of (caps st) 1 = Some g"
  by (auto simp: reExtension_def lit_def plus_def split: list.splits if_splits)

lemma reCrc32_caps:
  "st \<in> set (ms False (pattern reCrc32) st0) \<Longrightarrow> \<exists>g. map_of (caps st) 1 = Some g"
  by (auto simp: reCrc32_def lit_def split: list.splits if_splits)

lemma extractGroup_total: "\<exists>g. extractGroup s = Inr g"
proof (cases "exec reGroup s")
  case None
  then show ?thesis by (simp add: extractGroup_def)
next
  case (Some m)
  from exec_Some(1) [OF Some] reGroup_caps obtain g where "grp m 1 = Some g"
    by (fastforce simp: grp_def reGroup_def)
  with Some show ?thesis by (simp add: extractGroup_def)
qed

lemma extractExtension_total: "\<exists>g. extractExtension s = Inr g"
proof (cases "exec reExtension s")
  case None
  then show ?thesis by (simp add: extractExtension_def)
next
  case (Some m)
  from exec_Some(1) [OF Some] reExtension_caps obtain g where "grp m 1 = Some g"
    by (fastforce simp: grp_def reExtension_def)
  with Some show ?thesis by (simp add: extractExtension_def)
qed

lemma extractCrc32_total: "\<exists>g. extractCrc32 s = Inr g"
proof (cases "exec reCrc32 s")
  case None
  then show ?thesis by (simp add: extractCrc32_def)
next
  case (Some m)
  from exec_Some(1) [OF Some] reCrc32_caps obtain g where "grp m 1 = Some g"
    by (fastforce simp: grp_def reCrc32_def)
  with Some show ?thesis by (simp add: extractCrc32_def)
qed

lemma extractTitle_cong:
  "group r = group r' \<Longrightarrow> extension r = extension r' \<Longrightarrow> extractTitle s r = extractTitle s r'"
  by (simp add: extractTitle_def)

lemma computeConfidence_cong:
  "title r = title r' \<Longrightarrow> group r = group r' \<Longrightarrow> episode r = episode r' \<Longrightarrow>
   resolution r = resolution r' \<Longrightarrow> video_codec r = video_codec r' \<Longrightarrow>
   audio_codec r = audio_codec r' \<Longrightarrow> source r = source r' \<Longrightarrow>
   computeConfidence r = computeConfidence r'"
  unfolding computeConfidence_def by (simp only:)

lemma js_parse_total: "trim inp \<noteq> [] \<Longrightarrow> \<exists>r. js_parse inp = Inr r"
  using extractGroup_total [of "trim inp"] extractExtension_total [of "trim inp"]
    extractCrc32_total [of "trim inp"]
  by (auto simp: js_parse_def Let_def)

lemma js_parse_Inl: "js_parse inp = Inl e \<Longrightarrow> trim inp = [] \<and> e = Error ''input is empty or whitespace-only''"
  using extractGroup_total [of "trim inp"] extractExtension_total [of "trim inp"]
    extractCrc32_total [of "trim inp"]
  by (auto simp: js_parse_def Let_def split: if_splits)

lemma js_parse_Inr:
  assumes "js_parse inp = Inr r"
  shows "trim inp \<noteq> []"
    and "input r = trim inp"
    and "extractGroup (trim inp) = Inr (group r)"
    and "extractExtension (trim inp) = Inr (extension r)"
    and "extractCrc32 (trim inp) = Inr (crc32 r)"
    and "resolution r = extractResolution (trim inp)"
    and "season r = extractSeason (trim inp)"
    and "year r = extractYear (trim inp)"
    and "episode r = extractEpisode (trim inp)"
    and "video_codec r = None"
    and "audio_codec r = None"
    and "source r = None"
    and "version r = None"
    and "parse_mode r = Light"
    and "title r = extractTitle (trim inp) r"
    and "confidence r = computeConfidence r"
proof -
  from assms show ne: "trim inp \<noteq> []" by (auto simp: js_parse_def Let_def split: if_splits)
  obtain g ext crc where g: "extractGroup (trim inp) = Inr g"
    and ext: "extractExtension (trim inp) = Inr ext"
    and crc: "extractCrc32 (trim inp) = Inr crc"
    using extractGroup_total extractExtension_total extractCrc32_total by metis
  define r1 where "r1 = (emptyResult (trim inp))
                    \<lparr>group := g, extension := ext, crc32 := crc,
                     resolution := extractResolution (trim inp),
                     season := extractSeason (trim inp),
                     year := extractYear (trim inp),
                     episode := extractEpisode (trim inp)\<rparr>"
  define r2 where "r2 = r1\<lparr>title := extractTitle (trim inp) r1\<rparr>"
  from assms ne g ext crc have r: "r = r2\<lparr>confidence := computeConfidence r2\<rparr>"
    by (simp add: js_parse_def Let_def r1_def r2_def)
  show "input r = trim inp" "resolution r = extractResolution (trim inp)"
    "season r = extractSeason (trim inp)" "year r = extractYear (trim inp)"
    "episode r = extractEpisode (trim inp)" "video_codec r = None" "audio_codec r = None"
    "source r = None" "version r = None" "parse_mode r = Light"
    by (simp_all add: r r2_def r1_def emptyResult_def)
  show "extractGroup (trim inp) = Inr (group r)" "extractExtension (trim inp) = Inr (extension r)"
    "extractCrc32 (trim inp) = Inr (crc32 r)"
    by (simp_all add: r r2_def r1_def g ext crc)
  have "title r = extractTitle (trim inp) r1" by (simp add: r r2_def)
  also have "\<dots> = extractTitle (trim inp) r"
    by (rule extractTitle_cong) (simp_all add: r r2_def)
  finally show "title r = extractTitle (trim inp) r" .
  have "confidence r = computeConfidence r2" by (simp add: r)
  also have "\<dots> = computeConfidence r"
    by (rule computeConfidence_cong) (simp_all add: r)
  finally show "confidence r = computeConfidence r" .
qed

lemma parse_eq_js_parse: "trim inp \<noteq> [] \<Longrightarrow> parse inp = js_parse inp"
  by (simp add: parse_def)

lemma parse_Inr_js: "parse inp = Inr r \<Longrightarrow> js_parse inp = Inr r"
  by (simp add: parse_def split: if_splits)

lemma parse_total: "trim inp \<noteq> [] \<Longrightarrow> \<exists>r. parse inp = Inr r"
  by (simp add: parse_def js_parse_total)

lemma parse_empty: "trim inp = [] \<Longrightarrow> parse inp = Inl (Error ''Input must be a non-empty string'')"
  by (simp add: parse_def)

lemma parseBatch_ok:
  "\<forall>inp\<in>set inps. trim inp \<noteq> [] \<Longrightarrow> \<exists>rs. parseBatch inps = Inr rs \<and> map Inr rs = map parse inps"
proof (induction inps)
  case Nil
  then show ?case by simp
next
  case (Cons a inps)
  then obtain rs where rs: "parseBatch inps = Inr rs" "map Inr rs = map parse inps" by auto
  from Cons.prems obtain r where r: "parse a = Inr r" using parse_total [of a] by auto
  with rs show ?case by simp
qed

lemma parseBatch_fail:
  "\<forall>x\<in>set pre. trim x \<noteq> [] \<Longrightarrow> trim bad = [] \<Longrightarrow>
     parseBatch (pre @ bad # post) = Inl (Error ''Input must be a non-empty string'')"
proof (induction pre)
  case Nil
  then show ?case by (simp add: parse_empty)
next
  case (Cons a pre)
  then obtain r where "parse a = Inr r" using parse_total [of a] by auto
  with Cons show ?case by simp
qed

subsection \<open>The parser on sample inputs\<close>

lemma exec_single_A12:
  "exec reEpisode ''A 1 2'' = Some \<lparr>m_pre = ''A'', m_text = '' 1'', m_post = '' 2'', m_caps = [(1, ''1'')]\<rparr>"
  by (simp add: ev)

lemma exec_V_A12: "exec reEpisodeV ''A 1 2'' = None"
  by (simp add: ev)

lemma exec_range_A12: "exec reEpisodeRange ''A 1 2'' = None"
  by (simp add: ev)

lemma extractEpisode_A12: "extractEpisode ''A 1 2'' = Some (Single (Num 1))"
  by (simp add: extractEpisode_def single_attempt_def exec_single_A12 exec_V_A12 exec_range_A12)
    (simp add: ev)

subsection \<open>Sequences, groups and captures\<close>

lemma ms_caps_nogroup: "groups r = [] \<Longrightarrow> st' \<in> set (ms i r st) \<Longrightarrow> caps st' = caps st"
proof (induction r arbitrary: st st')
  case (Atom c)
  then show ?case by (auto split: list.splits if_splits)
next
  case (Seq a b)
  then obtain mid where "mid \<in> set (ms i a st)" "st' \<in> set (ms i b mid)" by auto
  with Seq show ?case by simp
qed (auto split: if_splits)

lemma ms_Eps_fun: "ms i Eps = (\<lambda>st. [st])"
  by (rule ext) simp

lemma ms_seqs_Cons: "ms i (seqs (r # rs)) st = concat (map (ms i (seqs rs)) (ms i r st))"
  by (cases rs) (simp_all add: ms_Eps_fun)

lemma in_ms_seqs_Nil: "st' \<in> set (ms i (seqs []) st) \<longleftrightarrow> st' = st"
  by auto

lemma concat_map_assoc:
  "concat (map f (concat (map g xs))) = concat (map (\<lambda>s. concat (map f (g s))) xs)"
  by (induction xs) simp_all

lemma ms_seqs_append:
  "ms i (seqs (xs @ ys)) st = concat (map (ms i (seqs ys)) (ms i (seqs xs) st))"
proof (induction xs arbitrary: st)
  case Nil
  then show ?case by simp
next
  case (Cons r xs)
  have "ms i (seqs ((r # xs) @ ys)) st = concat (map (ms i (seqs (xs @ ys))) (ms i r st))"
    by (simp add: ms_seqs_Cons)
  also have "\<dots> = concat (map (\<lambda>s. concat (map (ms i (seqs ys)) (ms i (seqs xs) s))) (ms i r st))"
    by (rule arg_cong [where f = concat], rule map_cong) (simp_all add: Cons.IH)
  also have "\<dots> = concat (map (ms i (seqs ys)) (ms i (seqs (r # xs)) st))"
    by (simp add: ms_seqs_Cons concat_map_assoc del: seqs.simps)
  finally show ?case .
qed

lemma in_ms_seqs_Cons:
  "st' \<in> set (ms i (seqs (r # rs)) st) \<longleftrightarrow> (\<exists>mid\<in>set (ms i r st). st' \<in> set (ms i (seqs rs) mid))"
  by (auto simp: ms_seqs_Cons)

lemma in_ms_seqs_append:
  "st' \<in> set (ms i (seqs (xs @ ys)) st) \<longleftrightarrow>
     (\<exists>mid\<in>set (ms i (seqs xs) st). st' \<in> set (ms i (seqs ys) mid))"
  by (auto simp: ms_seqs_append)

lemma in_ms_Group_Rep:
  assumes "st' \<in> set (ms i (Group n (Rep lo hi c)) st)"
  shows "\<exists>w. rest st = w @ rest st' \<and> caps st' = (n, w) # caps st \<and> list_all (cmatch i c) w
            \<and> lo \<le> length w \<and> (\<forall>h. hi = Some h \<longrightarrow> length w \<le> h)
            \<and> prev st' = (if w = [] then prev st else Some (last w))"
proof -
  from assms obtain pv r where pr: "(pv, r) \<in> set (greedy (cmatch i c) lo hi (prev st) (rest st))"
    and st': "st' = st\<lparr>prev := pv, rest := r, caps := (n, take (length (rest st) - length r) (rest st)) # caps st\<rparr>"
    by auto
  from greedy_sound [OF pr] obtain w where w: "rest st = w @ r" "list_all (cmatch i c) w"
    "lo \<le> length w" "\<forall>h. hi = Some h \<longrightarrow> length w \<le> h"
    "pv = (if w = [] then prev st else Some (last w))" by blast
  have "take (length (rest st) - length r) (rest st) = w" using w(1) by simp
  with w st' show ?thesis by (intro exI [of _ w]) simp
qed

lemma in_ms_lit:
  "st' \<in> set (ms i (lit c) st) \<longleftrightarrow>
     (\<exists>x xs. rest st = x # xs \<and> cmatch i (OneOf [Ch c]) x \<and> st' = st\<lparr>prev := Some x, rest := xs\<rparr>)"
  by (cases "rest st") (auto simp: lit_def)

lemma in_ms_Atom:
  "st' \<in> set (ms i (Atom c) st) \<longleftrightarrow>
     (\<exists>x xs. rest st = x # xs \<and> cmatch i c x \<and> st' = st\<lparr>prev := Some x, rest := xs\<rparr>)"
  by (cases "rest st") auto

lemma in_ms_Rep:
  assumes "st' \<in> set (ms i (Rep lo hi c) st)"
  shows "\<exists>w. rest st = w @ rest st' \<and> caps st' = caps st \<and> list_all (cmatch i c) w
            \<and> lo \<le> length w \<and> (\<forall>h. hi = Some h \<longrightarrow> length w \<le> h)
            \<and> prev st' = (if w = [] then prev st else Some (last w))"
proof -
  from assms obtain pv r where pr: "(pv, r) \<in> set (greedy (cmatch i c) lo hi (prev st) (rest st))"
    and st': "st' = st\<lparr>prev := pv, rest := r\<rparr>"
    by auto
  from greedy_sound [OF pr] st' show ?thesis by auto
qed

lemma digit_match: "item_match i Digit x \<Longrightarrow> is_digit x"
  by (auto simp: item_match_def canonicalize_def uncanonicalize_def is_digit_def split: if_splits)

lemma digits_match: "list_all (cmatch i (OneOf [Digit])) w \<Longrightarrow> list_all is_digit w"
  by (induction w) (auto dest: digit_match)

lemma ep_prefix_caps:
  assumes "mid \<in> set (ms i (seqs ep_prefix) st)"
  shows "caps mid = caps st"
proof -
  have "groups (seqs ep_prefix) = []" by (simp add: ep_prefix_def optional_def star_def)
  from ms_caps_nogroup [OF this assms] show ?thesis .
qed

lemma reEpisodeV_caps:
  assumes "st \<in> set (ms True (pattern reEpisodeV) st0)"
  shows "\<exists>d1 d2. map_of (caps st) 1 = Some d1 \<and> map_of (caps st) 2 = Some d2
           \<and> d1 \<noteq> [] \<and> list_all is_digit d1 \<and> length d1 \<le> 4
           \<and> d2 \<noteq> [] \<and> list_all is_digit d2"
proof -
  from assms obtain s1 s2 s3 where
    "s1 \<in> set (ms True (seqs ep_prefix) st0)"
    and s2: "s2 \<in> set (ms True (Group 1 (Rep 1 (Some 4) (OneOf [Digit]))) s1)"
    and s3: "s3 \<in> set (ms True (lit CHR ''v'') s2)"
    and st: "st \<in> set (ms True (Group 2 (Rep 1 None (OneOf [Digit]))) s3)"
    by (auto simp: reEpisodeV_def in_ms_seqs_append in_ms_seqs_Cons in_ms_seqs_Nil plus_def simp del: ms.simps seqs.simps)
  from in_ms_Group_Rep [OF s2] obtain d1 where d1: "caps s2 = (1, d1) # caps s1"
    "list_all (cmatch True (OneOf [Digit])) d1" "1 \<le> length d1" "length d1 \<le> 4" by blast
  from s3 have c3: "caps s3 = caps s2" by (auto simp: in_ms_lit)
  from in_ms_Group_Rep [OF st] obtain d2 where d2: "caps st = (2, d2) # caps s3"
    "list_all (cmatch True (OneOf [Digit])) d2" "1 \<le> length d2" by blast
  from d1 d2 c3 show ?thesis
    by (intro exI [of _ d1] exI [of _ d2]) (auto dest: digits_match)
qed

lemma reEpisodeRange_caps:
  assumes "st \<in> set (ms True (pattern reEpisodeRange) st0)"
  shows "\<exists>d1 d2. map_of (caps st) 1 = Some d1 \<and> map_of (caps st) 2 = Some d2
           \<and> d1 \<noteq> [] \<and> list_all is_digit d1 \<and> length d1 \<le> 4
           \<and> d2 \<noteq> [] \<and> list_all is_digit d2 \<and> length d2 \<le> 4"
proof -
  from assms obtain s1 s2 s3 s4 s5 where
    "s1 \<in> set (ms True (seqs ep_prefix) st0)"
    and s2: "s2 \<in> set (ms True (Group 1 (Rep 1 (Some 4) (OneOf [Digit]))) s1)"
    and s3: "s3 \<in> set (ms True (Rep 0 None (OneOf [Space])) s2)"
    and s4: "s4 \<in> set (ms True (Atom (OneOf [Ch CHR ''-'', Ch CHR ''~''])) s3)"
    and s5: "s5 \<in> set (ms True (Rep 0 None (OneOf [Space])) s4)"
    and st: "st \<in> set (ms True (Group 2 (Rep 1 (Some 4) (OneOf [Digit]))) s5)"
    by (auto simp: reEpisodeRange_def in_ms_seqs_append in_ms_seqs_Cons in_ms_seqs_Nil star_def simp del: ms.simps seqs.simps)
  from in_ms_Group_Rep [OF s2] obtain d1 where d1: "caps s2 = (1, d1) # caps s1"
    "list_all (cmatch True (OneOf [Digit])) d1" "1 \<le> length d1" "length d1 \<le> 4" by blast
  from in_ms_Rep [OF s3] have c3: "caps s3 = caps s2" by blast
  from s4 have c4: "caps s4 = caps s3" by (auto simp: in_ms_Atom simp del: ms.simps)
  from in_ms_Rep [OF s5] have c5: "caps s5 = caps s4" by blast
  from in_ms_Group_Rep [OF st] obtain d2 where d2: "caps st = (2, d2) # caps s5"
    "list_all (cmatch True (OneOf [Digit])) d2" "1 \<le> length d2" "length d2 \<le> 4" by blast
  from d1 d2 c3 c4 c5 show ?thesis
    by (intro exI [of _ d1] exI [of _ d2]) (auto dest: digits_match)
qed

lemma reEpisode_caps:
  assumes "st \<in> set (ms False (pattern reEpisode) st0)"
  shows "\<exists>d1. map_of (caps st) 1 = Some d1 \<and> d1 \<noteq> [] \<and> list_all is_digit d1 \<and> length d1 \<le> 4"
proof -
  from assms obtain s1 s2 where
    "s1 \<in> set (ms False (seqs ep_prefix) st0)"
    and s2: "s2 \<in> set (ms False (Group 1 (Rep 1 (Some 4) (OneOf [Digit]))) s1)"
    and st: "st \<in> set (ms False (Alt WordB (Alt (Seq (lit CHR ''v'') (Atom (OneOf [Digit]))) (Atom (NoneOf [Digit])))) s2)"
    by (auto simp: reEpisode_def in_ms_seqs_append in_ms_seqs_Cons in_ms_seqs_Nil simp del: ms.simps seqs.simps)
  from in_ms_Group_Rep [OF s2] obtain d1 where d1: "caps s2 = (1, d1) # caps s1"
    "list_all (cmatch False (OneOf [Digit])) d1" "1 \<le> length d1" "length d1 \<le> 4" by blast
  have "caps st = caps s2"
    by (rule ms_caps_nogroup [OF _ st]) (simp add: lit_def)
  with d1 show ?thesis
    by (intro exI [of _ d1]) (auto dest: digits_match)
qed

lemma digits_val_nonneg: "0 \<le> digits_val ds"
proof -
  have "0 \<le> a \<Longrightarrow> 0 \<le> foldl (\<lambda>a c. 10 * a + int (code c - 48)) a ds" for a
    by (induction ds arbitrary: a) simp_all
  then show ?thesis by (simp add: digits_val_def)
qed

lemma digits_val_bound:
  assumes "list_all is_digit ds"
  shows "digits_val ds < 10 ^ length ds"
proof -
  have "0 \<le> a \<Longrightarrow> foldl (\<lambda>a c. 10 * a + int (code c - 48)) a ds < (a + 1) * 10 ^ length ds"
    if "list_all is_digit ds" for a ds
    using that
  proof (induction ds arbitrary: a)
    case Nil
    then show ?case by simp
  next
    case (Cons d ds)
    let ?v = "int (code d - 48)"
    from Cons.prems have d: "?v \<le> 9" by (simp add: is_digit_def)
    from Cons.prems have "foldl (\<lambda>a c. 10 * a + int (code c - 48)) (10 * a + ?v) ds
        < (10 * a + ?v + 1) * 10 ^ length ds"
      by (intro Cons.IH) simp_all
    also have "\<dots> \<le> (10 * a + 10) * 10 ^ length ds"
      using d by (intro mult_right_mono) simp_all
    finally show ?case by (simp add: algebra_simps)
  qed
  from this [OF assms, of 0] show ?thesis by (simp add: digits_val_def)
qed

lemma double_of_nat_small: "n < 2 ^ 53 \<Longrightarrow> double_of_nat n = Some n"
  by (simp add: double_of_nat_def)

lemma to_double_small: "0 \<le> v \<Longrightarrow> v < 2 ^ 53 \<Longrightarrow> to_double v = Num v"
proof -
  assume v: "0 \<le> v" "v < 2 ^ 53"
  then have "nat v < 2 ^ 53" by (simp add: nat_less_iff)
  with v show ?thesis by (simp add: to_double_def double_of_nat_small)
qed

lemma parseInt10_digits:
  assumes "ds \<noteq> []" "list_all is_digit ds"
  shows "parseInt10 (Some ds) = to_double (digits_val ds)"
proof -
  from assms obtain d ds' where ds: "ds = d # ds'" and d: "is_digit d" by (cases ds) auto
  from d have nsp: "\<not> is_space d" and nm: "d \<noteq> CHR ''-''" and np: "d \<noteq> CHR ''+''"
    by (auto simp: is_digit_def is_space_def code_def)
  have "takeWhile is_digit ds = ds" using assms(2) by (simp add: list_all_iff)
  with ds nsp nm np show ?thesis by (simp add: parseInt10_def)
qed

lemma parseInt10_short:
  assumes "ds \<noteq> []" "list_all is_digit ds" "length ds \<le> 15"
  shows "parseInt10 (Some ds) = Num (digits_val ds)"
proof -
  have "digits_val ds < 10 ^ length ds" by (rule digits_val_bound [OF assms(2)])
  also have "(10::int) ^ length ds \<le> 10 ^ 15" using assms(3) by (intro power_increasing) simp_all
  also have "(10::int) ^ 15 < 2 ^ 53" by simp
  finally have "digits_val ds < 2 ^ 53" .
  with digits_val_nonneg [of ds] show ?thesis
    by (simp add: parseInt10_digits [OF assms(1,2)] to_double_small)
qed

subsection \<open>The episode patterns\<close>

lemma nonneg_to_double: "0 \<le> v \<Longrightarrow> nonneg (to_double v)"
  by (simp add: to_double_def split: option.splits)

lemma nonneg_parseInt10: "ds \<noteq> [] \<Longrightarrow> list_all is_digit ds \<Longrightarrow> nonneg (parseInt10 (Some ds))"
  by (simp add: parseInt10_digits digits_val_nonneg nonneg_to_double)

lemma int_nonneg_parseInt10:
  "ds \<noteq> [] \<Longrightarrow> list_all is_digit ds \<Longrightarrow> length ds \<le> 4 \<Longrightarrow> int_nonneg (parseInt10 (Some ds))"
  by (simp add: parseInt10_short digits_val_nonneg)

lemma exec_reEpisodeV_groups:
  assumes "exec reEpisodeV s = Some m"
  shows "\<exists>d1 d2. grp m 1 = Some d1 \<and> grp m 2 = Some d2
           \<and> d1 \<noteq> [] \<and> list_all is_digit d1 \<and> length d1 \<le> 4
           \<and> d2 \<noteq> [] \<and> list_all is_digit d2"
proof -
  from exec_Some(1) [OF assms] obtain st where
    "st \<in> set (ms True (pattern reEpisodeV) (start_state (m_pre m) (m_text m @ m_post m)))"
    "caps st = m_caps m" by (auto simp: reEpisodeV_def)
  with reEpisodeV_caps [of st] show ?thesis by (auto simp: grp_def)
qed

lemma exec_reEpisodeRange_groups:
  assumes "exec reEpisodeRange s = Some m"
  shows "\<exists>d1 d2. grp m 1 = Some d1 \<and> grp m 2 = Some d2
           \<and> d1 \<noteq> [] \<and> list_all is_digit d1 \<and> length d1 \<le> 4
           \<and> d2 \<noteq> [] \<and> list_all is_digit d2 \<and> length d2 \<le> 4"
proof -
  from exec_Some(1) [OF assms] obtain st where
    "st \<in> set (ms True (pattern reEpisodeRange) (start_state (m_pre m) (m_text m @ m_post m)))"
    "caps st = m_caps m" by (auto simp: reEpisodeRange_def)
  with reEpisodeRange_caps [of st] show ?thesis by (auto simp: grp_def)
qed

lemma exec_reEpisode_groups:
  assumes "exec reEpisode s = Some m"
  shows "\<exists>d1. grp m 1 = Some d1 \<and> d1 \<noteq> [] \<and> list_all is_digit d1 \<and> length d1 \<le> 4"
proof -
  from exec_Some(1) [OF assms] obtain st where
    "st \<in> set (ms False (pattern reEpisode) (start_state (m_pre m) (m_text m @ m_post m)))"
    "caps st = m_caps m" by (auto simp: reEpisode_def)
  with reEpisode_caps [of st] show ?thesis by (auto simp: grp_def)
qed

lemma single_attempt_invariant: "single_attempt s = Some e \<Longrightarrow> episode_invariant e"
  by (auto simp: single_attempt_def split: option.splits
      dest!: exec_reEpisode_groups intro: int_nonneg_parseInt10)

lemma extractEpisode_invariant: "extractEpisode s = Some e \<Longrightarrow> episode_invariant e"
proof (cases "exec reEpisodeV s")
  case (Some m)
  assume e: "extractEpisode s = Some e"
  from exec_reEpisodeV_groups [OF Some] obtain d1 d2 where
    "grp m 1 = Some d1" "grp m 2 = Some d2" "d1 \<noteq> []" "list_all is_digit d1" "length d1 \<le> 4"
    "d2 \<noteq> []" "list_all is_digit d2" by blast
  with Some e show ?thesis
    by (auto simp: extractEpisode_def nonneg_parseInt10 int_nonneg_parseInt10)
next
  case None
  assume e: "extractEpisode s = Some e"
  show ?thesis
  proof (cases "exec reEpisodeRange s")
    case N: None
    with None e show ?thesis by (simp add: extractEpisode_def single_attempt_invariant)
  next
    case (Some m)
    from exec_reEpisodeRange_groups [OF Some] obtain d1 d2 where
      d: "grp m 1 = Some d1" "grp m 2 = Some d2" "d1 \<noteq> []" "list_all is_digit d1"
      "length d1 \<le> 4" "d2 \<noteq> []" "list_all is_digit d2" "length d2 \<le> 4" by blast
    show ?thesis
    proof (cases "num_less (parseInt10 (grp m 1)) (parseInt10 (grp m 2))")
      case True
      with None Some e d show ?thesis
        by (auto simp: extractEpisode_def Let_def int_nonneg_parseInt10)
    next
      case False
      with None Some e show ?thesis
        by (simp add: extractEpisode_def Let_def single_attempt_invariant)
    qed
  qed
qed

lemma exec_V_28v2:
  "exec reEpisodeV '' 28v2'' =
     Some \<lparr>m_pre = [], m_text = '' 28v2'', m_post = [], m_caps = [(2, ''2''), (1, ''28'')]\<rparr>"
  by (simp add: ev)

lemma exec_V_range: "exec reEpisodeV '' 01-12'' = None"
  by (simp add: ev)

lemma exec_range_range:
  "exec reEpisodeRange '' 01-12'' =
     Some \<lparr>m_pre = [], m_text = '' 01-12'', m_post = [], m_caps = [(2, ''12''), (1, ''01'')]\<rparr>"
  by (simp add: ev)

lemma exec_V_badrange: "exec reEpisodeV '' 12-05'' = None"
  by (simp add: ev)

lemma exec_range_badrange:
  "exec reEpisodeRange '' 12-05'' =
     Some \<lparr>m_pre = [], m_text = '' 12-05'', m_post = [], m_caps = [(2, ''05''), (1, ''12'')]\<rparr>"
  by (simp add: ev)

lemma exec_single_badrange:
  "exec reEpisode '' 12-05'' =
     Some \<lparr>m_pre = [], m_text = '' 12'', m_post = ''-05'', m_caps = [(1, ''12'')]\<rparr>"
  by (simp add: ev)

lemma exec_none_abc:
  "exec reEpisodeV ''abc'' = None" "exec reEpisodeRange ''abc'' = None" "exec reEpisode ''abc'' = None"
  by (simp_all add: ev)

lemma parseInt10_samples:
  "parseInt10 (Some ''28'') = Num 28" "parseInt10 (Some ''2'') = Num 2"
  "parseInt10 (Some ''01'') = Num 1" "parseInt10 (Some ''12'') = Num 12"
  "parseInt10 (Some ''05'') = Num 5" "parseInt10 (Some ''0'') = Num 0"
  "parseInt10 (Some ''00'') = Num 0"
  by (simp_all add: ev)

lemma exec_V_28v0:
  "exec reEpisodeV ''Show - 28v0'' =
     Some \<lparr>m_pre = ''Show '', m_text = ''- 28v0'', m_post = [], m_caps = [(2, ''0''), (1, ''28'')]\<rparr>"
  by (simp add: ev)

lemma trim_samples:
  "trim ''Show - 28v0'' = ''Show - 28v0''" "trim ''Show S00'' = ''Show S00''"
  "trim '' 12-05'' = ''12-05''" "trim ''x 12-05'' = ''x 12-05''"
  by (simp_all add: ev)

subsection \<open>The season pattern\<close>

lemma code_inj: "code x = code y \<Longrightarrow> x = y"
  by (simp add: code_def)

lemma space_match: "item_match i Space x \<Longrightarrow> is_space x"
  by (auto simp: item_match_def canonicalize_def uncanonicalize_def is_space_def split: if_splits)

lemma dash_match: "item_match i (Ch CHR ''-'') x \<Longrightarrow> x = CHR ''-''"
proof -
  assume "item_match i (Ch CHR ''-'') x"
  then have "code x = code CHR ''-''"
    by (auto simp: item_match_def canonicalize_def uncanonicalize_def code_def split: if_splits)
  then show ?thesis by (rule code_inj)
qed

lemma S_match: "item_match True (Ch CHR ''S'') x \<Longrightarrow> x = CHR ''S'' \<or> x = CHR ''s''"
proof -
  assume "item_match True (Ch CHR ''S'') x"
  then have "code x = code CHR ''S'' \<or> code x = code CHR ''s''"
    by (auto simp: item_match_def canonicalize_def uncanonicalize_def code_def split: if_splits)
  then show ?thesis by (auto dest: code_inj)
qed

lemma reSeason_match:
  assumes "st \<in> set (ms True (pattern reSeason) st0)"
  shows "\<exists>sep c ds. rest st0 = sep @ c # ds @ rest st
           \<and> (sep = [] \<and> prev st0 = None \<or> (\<exists>x. sep = [x] \<and> (is_space x \<or> x = CHR ''-'')))
           \<and> (c = CHR ''S'' \<or> c = CHR ''s'') \<and> ds \<noteq> [] \<and> list_all is_digit ds
           \<and> map_of (caps st) 1 = Some ds"
proof -
  from assms obtain s1 s2 where
    s1: "s1 \<in> set (ms True (Alt Bol (Atom (OneOf [Space, Ch CHR ''-'']))) st0)"
    and s2: "s2 \<in> set (ms True (lit CHR ''S'') s1)"
    and st: "st \<in> set (ms True (Group 1 (Rep 1 None (OneOf [Digit]))) s2)"
    by (auto simp: reSeason_def in_ms_seqs_Cons in_ms_seqs_Nil plus_def simp del: ms.simps seqs.simps)
  from s1 obtain sep where sep: "rest st0 = sep @ rest s1"
    "sep = [] \<and> prev st0 = None \<or> (\<exists>x. sep = [x] \<and> (is_space x \<or> x = CHR ''-''))"
  proof (cases "rest st0")
    case Nil
    with s1 that show ?thesis by (auto split: if_splits)
  next
    case (Cons x xs)
    with s1 that show ?thesis by (auto split: if_splits dest: space_match dash_match)
  qed
  from s2 obtain c where c: "rest s1 = c # rest s2" "c = CHR ''S'' \<or> c = CHR ''s''"
    by (auto simp: in_ms_lit dest: S_match)
  from in_ms_Group_Rep [OF st] obtain ds where ds: "rest s2 = ds @ rest st"
    "caps st = (1, ds) # caps s2" "list_all (cmatch True (OneOf [Digit])) ds" "1 \<le> length ds"
    by blast
  from sep c ds show ?thesis
    by (intro exI [of _ sep] exI [of _ c] exI [of _ ds]) (auto dest: digits_match)
qed

lemma greedy_nonempty: "greedy p 0 hi pv xs \<noteq> []"
  by (cases xs) simp_all

lemma greedy_hd_maximal:
  "greedy p lo None pv xs = (pv', r) # gs \<Longrightarrow> r = [] \<or> \<not> p (hd r)"
proof (induction xs arbitrary: lo pv gs)
  case Nil
  then show ?case by (simp split: if_splits)
next
  case (Cons x xs)
  show ?case
  proof (cases "p x")
    case False
    with Cons.prems show ?thesis by (auto split: if_splits)
  next
    case True
    have "greedy p (lo - 1) None (Some x) xs \<noteq> []"
    proof (cases "lo = 0")
      case True
      then show ?thesis by (simp add: greedy_nonempty)
    next
      case False
      with Cons.prems \<open>p x\<close> show ?thesis by auto
    qed
    then obtain y ys where y: "greedy p (lo - 1) None (Some x) xs = y # ys"
      by (cases "greedy p (lo - 1) None (Some x) xs") auto
    with Cons.prems True have "y = (pv', r)" by simp
    with y Cons.IH [of "lo - 1" "Some x" ys] show ?thesis by simp
  qed
qed

lemma concat_map_hd:
  "concat (map f xs) = y # ys \<Longrightarrow> \<exists>x \<in> set xs. \<exists>zs. f x = y # zs"
proof (induction xs)
  case Nil
  then show ?case by simp
next
  case (Cons a xs)
  then show ?case by (cases "f a") auto
qed

lemma is_digit_cmatch: "is_digit x \<Longrightarrow> cmatch i (OneOf [Digit]) x"
  by (auto simp: item_match_def canonicalize_def uncanonicalize_def is_digit_def)

lemma reSeason_hd_maximal:
  assumes "ms True (pattern reSeason) st0 = st # sts"
  shows "rest st = [] \<or> \<not> is_digit (hd (rest st))"
proof -
  let ?A = "Alt Bol (Atom (OneOf [Space, Ch CHR ''-'']))"
  let ?G = "Group 1 (Rep 1 None (OneOf [Digit]))"
  have pat: "pattern reSeason = seqs [?A, lit CHR ''S'', ?G]"
    by (simp add: reSeason_def plus_def)
  from assms have "concat (map (ms True (seqs [lit CHR ''S'', ?G])) (ms True ?A st0)) = st # sts"
    unfolding pat ms_seqs_Cons [of True ?A] .
  from concat_map_hd [OF this] obtain s1 zs where
    "ms True (seqs [lit CHR ''S'', ?G]) s1 = st # zs" by blast
  then have "concat (map (ms True (seqs [?G])) (ms True (lit CHR ''S'') s1)) = st # zs"
    unfolding ms_seqs_Cons [of True "lit CHR ''S''"] .
  from concat_map_hd [OF this] obtain s2 zs' where "ms True ?G s2 = st # zs'"
    by (auto simp del: ms.simps)
  then obtain pv r gs where
    g: "greedy (cmatch True (OneOf [Digit])) 1 None (prev s2) (rest s2) = (pv, r) # gs"
    and r: "rest st = r"
    by (cases "greedy (cmatch True (OneOf [Digit])) 1 None (prev s2) (rest s2)") auto
  from greedy_hd_maximal [OF g] r show ?thesis by (auto dest: is_digit_cmatch)
qed

lemma exec_Some_hd:
  assumes "exec re s = Some m"
  shows "\<exists>st sts. ms (ignoreCase re) (pattern re) (start_state (m_pre m) (m_text m @ m_post m))
              = st # sts \<and> rest st = m_post m \<and> caps st = m_caps m"
proof -
  from assms have "scan re [] s = Some m" by (simp add: exec_def)
  from scan_Some [OF this] show ?thesis by auto
qed

lemma extractSeason_Some:
  assumes "extractSeason s = Some n"
  shows "\<exists>pre c ds post. s = pre @ c # ds @ post
           \<and> (pre = [] \<or> is_space (last pre) \<or> last pre = CHR ''-'')
           \<and> (c = CHR ''S'' \<or> c = CHR ''s'') \<and> ds \<noteq> [] \<and> list_all is_digit ds
           \<and> (post = [] \<or> \<not> is_digit (hd post))
           \<and> n = to_double (digits_val ds)"
proof -
  from assms obtain m where m: "exec reSeason s = Some m" and n: "n = parseInt10 (grp m 1)"
    by (auto simp: extractSeason_def split: option.splits)
  have ic: "ignoreCase reSeason = True" by (simp add: reSeason_def)
  from exec_Some_hd [OF m] obtain st sts where
    hd: "ms True (pattern reSeason) (start_state (m_pre m) (m_text m @ m_post m)) = st # sts"
    and r: "rest st = m_post m" and cp: "caps st = m_caps m"
    unfolding ic by blast
  from hd have st: "st \<in> set (ms True (pattern reSeason) (start_state (m_pre m) (m_text m @ m_post m)))"
    by simp
  from exec_Some(2) [OF m] have s: "s = m_pre m @ m_text m @ m_post m" .
  from reSeason_hd_maximal [OF hd] r have mx: "m_post m = [] \<or> \<not> is_digit (hd (m_post m))"
    by simp
  from reSeason_match [OF st] r cp obtain sep c ds where
    *: "m_text m @ m_post m = sep @ c # ds @ m_post m"
    "sep = [] \<and> m_pre m = [] \<or> (\<exists>x. sep = [x] \<and> (is_space x \<or> x = CHR ''-''))"
    "c = CHR ''S'' \<or> c = CHR ''s''" "ds \<noteq> []" "list_all is_digit ds"
    "grp m 1 = Some ds"
    by (auto simp: start_state_def grp_def split: if_splits)
  from * s have "s = (m_pre m @ sep) @ c # ds @ m_post m" by simp
  moreover from *(2) have "m_pre m @ sep = [] \<or> is_space (last (m_pre m @ sep))
      \<or> last (m_pre m @ sep) = CHR ''-''" by auto
  moreover from n * have "n = to_double (digits_val ds)" by (simp add: parseInt10_digits)
  ultimately show ?thesis using * mx by blast
qed

lemma exec_season_S00:
  "exec reSeason ''Show S00'' =
     Some \<lparr>m_pre = ''Show'', m_text = '' S00'', m_post = [], m_caps = [(1, ''00'')]\<rparr>"
  by (simp add: ev)

lemma bit_len_lower: "n \<noteq> 0 \<Longrightarrow> 2 ^ (bit_len n - 1) \<le> n"
proof (induction n rule: bit_len.induct)
  case (1 n)
  show ?case
  proof (cases "n div 2 = 0")
    case True
    with "1.prems" have "n = 1" by arith
    then show ?thesis by (simp add: bit_len.simps [of "Suc 0"] bit_len.simps [of 0])
  next
    case False
    with 1 have ih: "2 ^ (bit_len (n div 2) - 1) \<le> n div 2" by simp
    from False have pos: "0 < bit_len (n div 2)" by (subst bit_len.simps) simp
    from 1 have "bit_len n - 1 = bit_len (n div 2)" by (subst bit_len.simps) simp
    also from pos have "\<dots> = Suc (bit_len (n div 2) - 1)" by simp
    finally have "(2::nat) ^ (bit_len n - 1) = 2 * 2 ^ (bit_len (n div 2) - 1)" by simp
    also from ih have "\<dots> \<le> 2 * (n div 2)" by simp
    also have "\<dots> \<le> n" by simp
    finally show ?thesis .
  qed
qed

lemma bit_len_upper: "n < 2 ^ bit_len n"
proof (induction n rule: bit_len.induct)
  case (1 n)
  show ?case
  proof (cases "n = 0")
    case True
    then show ?thesis by simp
  next
    case False
    with 1 have "n div 2 < 2 ^ bit_len (n div 2)" by simp
    then have "n < 2 * 2 ^ bit_len (n div 2)" by arith
    with False show ?thesis by (subst bit_len.simps) simp
  qed
qed

lemma double_of_nat_overflow:
  assumes "2 ^ 1024 \<le> n"
  shows "double_of_nat n = None"
proof -
  define L where "L = bit_len n"
  define e where "e = L - 53"
  define q where "q = n div 2 ^ e"
  from assms have n0: "n \<noteq> 0" by auto
  have "(2::nat) ^ 1024 < 2 ^ L" using assms bit_len_upper [of n] by (simp add: L_def)
  then have L: "1024 < L" by (rule power_less_imp_less_exp [rotated]) simp
  then have Le: "L - 1 = 52 + e" by (simp add: e_def)
  from bit_len_lower [OF n0] have "2 ^ (L - 1) \<le> n" unfolding L_def .
  then have "2 ^ (52 + e) \<le> n" unfolding Le .
  then have "2 ^ 52 * 2 ^ e \<le> n" by (simp add: power_add)
  then have q52: "2 ^ 52 \<le> q" by (simp add: q_def less_eq_div_iff_mult_less_eq)
  have "(2::nat) ^ 1024 \<le> 2 ^ (52 + e)" using L Le by (intro power_increasing) simp_all
  also have "\<dots> = 2 ^ 52 * 2 ^ e" by (rule power_add)
  also have "\<dots> \<le> q * 2 ^ e" using q52 by (rule mult_right_mono) simp
  finally have big: "2 ^ 1024 \<le> q * 2 ^ e" .
  have "q * 2 ^ e \<le> (q + 1) * 2 ^ e" by (rule mult_right_mono) simp_all
  with big have big': "2 ^ 1024 \<le> (q + 1) * 2 ^ e" by (rule order_trans)
  have m: "2 ^ 1024 \<le> (if C then q + 1 else q) * 2 ^ e" for C
    using big big' by (cases C) (simp_all only: if_True if_False)
  have "(2::nat) ^ 53 \<le> 2 ^ 1024" by (intro power_increasing) simp_all
  from this assms have "2 ^ 53 \<le> n" by (rule order_trans)
  then have small: "\<not> n < 2 ^ 53" by (simp only: not_less)
  show ?thesis
    unfolding double_of_nat_def Let_def L_def [symmetric] e_def [symmetric] q_def [symmetric]
    by (simp only: small m if_False if_True)
qed

lemma to_double_overflow: "2 ^ 1024 \<le> v \<Longrightarrow> to_double v = PosInf"
proof -
  assume v: "2 ^ 1024 \<le> v"
  then have "2 ^ 1024 \<le> nat v" by (simp add: le_nat_iff)
  from double_of_nat_overflow [OF this] v show ?thesis
    by (simp add: to_double_def)
qed

lemma to_double_samples:
  "to_double 9007199254740992 = Num 9007199254740992"
  "to_double 9007199254740993 = Num 9007199254740992"
  "to_double 9007199254740995 = Num 9007199254740996"
  "to_double 9007199254740997 = Num 9007199254740996"
  by (simp_all add: to_double_def double_of_nat_def bit_len.simps Let_def)

lemma digits_val_zeros:
  "foldl (\<lambda>a c. 10 * a + int (code c - 48)) a (replicate k CHR ''0'') = a * 10 ^ k"
  by (induction k arbitrary: a) (simp_all add: code_def)

lemma digits_val_one_zeros: "digits_val (CHR ''1'' # replicate k CHR ''0'') = 10 ^ k"
proof -
  have "int (code CHR ''1'' - 48) = 1" by (simp add: code_def)
  then show ?thesis by (simp add: digits_val_def digits_val_zeros)
qed

lemma greedy_all:
  "list_all p w \<Longrightarrow> lo \<le> length w \<Longrightarrow>
     \<exists>gs. greedy p lo None pv w = (if w = [] then pv else Some (last w), []) # gs"
proof (induction w arbitrary: lo pv)
  case Nil
  then show ?case by simp
next
  case (Cons x w)
  from Cons.prems have "list_all p w" "lo - 1 \<le> length w" by auto
  from Cons.IH [OF this, of "Some x"] obtain gs where
    "greedy p (lo - 1) None (Some x) w = (if w = [] then Some x else Some (last w), []) # gs"
    by blast
  with Cons.prems show ?case by auto
qed

lemma exec_season_run:
  assumes "ds \<noteq> []" "list_all is_digit ds"
  shows "\<exists>m. exec reSeason (CHR ''S'' # ds) = Some m \<and> grp m 1 = Some ds"
proof -
  from assms(2) have "list_all (cmatch True (OneOf [Digit])) ds"
    by (auto simp: list_all_iff intro: is_digit_cmatch simp del: cmatch.simps)
  from greedy_all [OF this, of 1 "Some CHR ''S''"] assms(1) obtain gs where
    g: "greedy (cmatch True (OneOf [Digit])) (Suc 0) None (Some CHR ''S'') ds
          = (Some (last ds), []) # gs"
    by (cases ds) auto
  show ?thesis
    by (simp add: ev g)
qed

lemma extractSeason_run:
  "ds \<noteq> [] \<Longrightarrow> list_all is_digit ds \<Longrightarrow>
     extractSeason (CHR ''S'' # ds) = Some (to_double (digits_val ds))"
  using exec_season_run [of ds] by (auto simp: extractSeason_def parseInt10_digits)

lemma extractSeason_samples:
  "extractSeason ''S9007199254740993'' = Some (Num 9007199254740992)"
  "extractSeason (CHR ''S'' # CHR ''1'' # replicate 309 CHR ''0'') = Some PosInf"
proof -
  have "digits_val ''9007199254740993'' = 9007199254740993" by (simp add: digits_val_def code_def)
  with extractSeason_run [of "''9007199254740993''"]
  show "extractSeason ''S9007199254740993'' = Some (Num 9007199254740992)"
    by (simp add: is_digit_def code_def to_double_samples)
  have "(2::int) ^ 1024 \<le> 10 ^ 309" by simp
  then have "to_double (10 ^ 309) = PosInf" by (rule to_double_overflow)
  with extractSeason_run [of "CHR ''1'' # replicate 309 CHR ''0''"]
  show "extractSeason (CHR ''S'' # CHR ''1'' # replicate 309 CHR ''0'') = Some PosInf"
    by (simp add: digits_val_one_zeros list_all_iff is_digit_def code_def)
qed

subsection \<open>Containment and confidence\<close>

lemma includes_str_iff: "includes_str s t \<longleftrightarrow> contains s t"
proof
  assume "includes_str s t"
  then obtain k where k: "take (length t) (drop k s) = t"
    by (auto simp: includes_str_def indexOf_def find_None_iff occurs_at_def)
  have "s = take k s @ drop k s" by simp
  also have "drop k s = take (length t) (drop k s) @ drop (length t) (drop k s)"
    by (simp only: append_take_drop_id)
  finally have "s = take k s @ t @ drop (length t) (drop k s)" using k by simp
  then show "contains s t" unfolding contains_def by blast
next
  assume "contains s t"
  then obtain u v where s: "s = u @ t @ v" by (auto simp: contains_def)
  then have "occurs_at s t (length u)" by (simp add: occurs_at_def)
  moreover have "length u \<in> set [0 ..< Suc (length s)]" using s by simp
  ultimately show "includes_str s t"
    unfolding includes_str_def indexOf_def find_None_iff by blast
qed

lemma toLowerCase_1080P: "toLowerCase ''1080P'' = ''1080p''"
  by (simp add: toLowerCase_def code_def char_of_eq_iff)

lemma extractResolution_1080P: "extractResolution ''1080P'' = None"
  by (simp add: extractResolution_def ev)

lemma exec_reResolution_1080P:
  "exec reResolution ''1080P'' =
     Some \<lparr>m_pre = [], m_text = ''1080P'', m_post = [], m_caps = []\<rparr>"
  by (simp add: ev reResolution_def)

text \<open>
  The order of the tests of \<open>extractResolution\<close>: 2160, 1080, 720, 480, each with the
  suffix \<open>p\<close> or \<open>i\<close>, the first marker found deciding.
\<close>

lemma extractResolution_order:
  "extractResolution s =
     (if contains s ''2160p'' \<or> contains s ''2160i'' then Some UHD2160
      else if contains s ''1080p'' \<or> contains s ''1080i'' then Some FHD1080
      else if contains s ''720p'' \<or> contains s ''720i'' then Some HD720
      else if contains s ''480p'' \<or> contains s ''480i'' then Some SD480
      else None)"
  by (simp only: extractResolution_def includes_str_iff)

lemma if_add_nat: "(if b then (x::nat) + k else x) = x + (if b then k else 0)"
  by simp

lemma computeConfidence_eq:
  "computeConfidence r = min (real (numerator r) / real (denominator r)) 1"
proof -
  have t: "(7::nat) + (if truthy (title r) then 1 else 0) = denominator r"
    by (simp add: denominator_def)
  show ?thesis
    unfolding computeConfidence_def Let_def if_add_nat numerator_def
    by (simp only: add_0 t)
qed

lemma replace_None: "\<not> globalFlag re \<Longrightarrow> exec re s = None \<Longrightarrow> replace s re rep = s"
  by (simp add: replace_def)

lemma nonglobal:
  "\<not> globalFlag reEpisodeV" "\<not> globalFlag reEpisodeRange" "\<not> globalFlag reEpisode"
  "\<not> globalFlag reSeason" "\<not> globalFlag reYear"
  by (simp_all add: ev)

lemma bracket_abc_fields:
  "trim ''[ ]abc'' = ''[ ]abc''"
  "extractGroup ''[ ]abc'' = Inr (Some [])"
  "extractResolution ''[ ]abc'' = None"
  by (simp_all add: extractGroup_def extractResolution_def ev)

lemma bracket_abc_execs:
  "exec reEpisodeV ''[ ]abc'' = None" "exec reEpisodeRange ''[ ]abc'' = None"
  "exec reEpisode ''[ ]abc'' = None" "exec reSeason ''[ ]abc'' = None"
  "exec reYear ''[ ]abc'' = None" "exec reExtension ''[ ]abc'' = None"
  by (simp_all add: ev)

lemma bracket_abc_clean:
  "replace ''[ ]abc'' reBracketed '' '' = '' abc''"
  "replace '' abc'' reParenthesized '' '' = '' abc''"
  "clean_up '' abc'' = ''abc''"
  by (simp_all add: clean_up_def ev)

lemma bracket_abc_title:
  "group r = Some [] \<Longrightarrow> extension r = None \<Longrightarrow> extractTitle ''[ ]abc'' r = Some ''abc''"
  by (simp add: extractTitle_def Let_def truthy_def replace_None nonglobal bracket_abc_execs
      bracket_abc_clean)

lemma parse_bracket_abc:
  "\<exists>r. parse ''[ ]abc'' = Inr r \<and> group r = Some [] \<and> title r = Some ''abc''
       \<and> episode r = None \<and> resolution r = None \<and> video_codec r = None
       \<and> audio_codec r = None \<and> source r = None \<and> confidence r = computeConfidence r"
proof -
  obtain r where r: "parse ''[ ]abc'' = Inr r"
    using parse_total [of "''[ ]abc''"] by (auto simp: bracket_abc_fields)
  note f = js_parse_Inr [OF parse_Inr_js [OF r], unfolded bracket_abc_fields]
  from f(3) have g: "group r = Some []" by simp
  from f(4) have x: "extension r = None"
    by (simp add: extractExtension_def bracket_abc_execs)
  from f(15) g x have t: "title r = Some ''abc''" by (simp add: bracket_abc_title)
  from f(9) have e: "episode r = None"
    by (simp add: extractEpisode_def single_attempt_def bracket_abc_execs)
  from r g t e f(6,10,11,12,16) show ?thesis by blast
qed

subsection \<open>Words and white space\<close>

lemma nopair_append:
  "nopair a b (xs @ ys) \<longleftrightarrow> nopair a b xs \<and> nopair a b ys \<and> (a \<in> set xs \<longrightarrow> b \<notin> set ys)"
  by (induction xs) auto

lemma nopair_filter:
  assumes "\<And>c. \<not> P c \<Longrightarrow> c \<noteq> a \<and> c \<noteq> b"
  shows "nopair a b (filter P s) = nopair a b s"
  using assms by (induction s) auto

lemma pair_not_nopair: "\<not> nopair a b (u @ a # v @ b # w)"
  by (simp add: nopair_append)

lemma split_ws_ne: "split_ws s \<noteq> []"
  by (induction s rule: split_ws.induct) (auto split: list.splits)

lemma split_ws_nonspace_all: "\<forall>w\<in>set (split_ws s). \<forall>c\<in>set w. \<not> is_space c"
proof (induction s rule: split_ws.induct)
  case 1
  then show ?case by simp
next
  case (2 c cs)
  show ?case
  proof (cases "is_space c")
    case True
    with 2(1) show ?thesis by simp
  next
    case False
    obtain w ws where ws: "split_ws cs = w # ws" using split_ws_ne [of cs] by (cases "split_ws cs") auto
    with 2(2) [OF False] have "\<forall>c\<in>set w. \<not> is_space c" "\<forall>v\<in>set ws. \<forall>c\<in>set v. \<not> is_space c"
      by simp_all
    with False ws show ?thesis by simp
  qed
qed

lemma split_ws_nonspace: "w \<in> set (split_ws s) \<Longrightarrow> c \<in> set w \<Longrightarrow> \<not> is_space c"
  using split_ws_nonspace_all by blast

lemma filter_not_dropWhile: "filter (\<lambda>c. \<not> P c) (dropWhile P xs) = filter (\<lambda>c. \<not> P c) xs"
  by (induction xs) auto

lemma concat_split_ws: "concat (split_ws s) = filter (\<lambda>c. \<not> is_space c) s"
  by (induction s rule: split_ws.induct) (auto simp: filter_not_dropWhile split: list.splits)

lemma space_is_space: "is_space CHR '' ''"
  by (simp add: is_space_def code_def)

lemma filter_join_sp:
  "filter (\<lambda>c. \<not> is_space c) (join_sp ws) = filter (\<lambda>c. \<not> is_space c) (concat ws)"
  by (induction ws rule: join_sp.induct) (simp_all add: space_is_space)

lemma concat_nonempty: "concat (filter (\<lambda>w. w \<noteq> []) ws) = concat ws"
  by (induction ws) auto

lemma filter_words:
  "filter (\<lambda>c. \<not> is_space c) (join_sp (filter (\<lambda>w. w \<noteq> []) (split_ws u)))
     = filter (\<lambda>c. \<not> is_space c) u"
  by (simp add: filter_join_sp concat_nonempty concat_split_ws)

lemma good_words_split: "good_words (filter (\<lambda>w. w \<noteq> []) (split_ws u))"
  by (auto simp: good_words_def dest: split_ws_nonspace)

lemma trim_id: "s = [] \<or> (\<not> is_space (hd s) \<and> \<not> is_space (last s)) \<Longrightarrow> trim s = s"
proof (cases "s = []")
  case True
  then show ?thesis by (simp add: trim_def)
next
  case False
  assume "s = [] \<or> (\<not> is_space (hd s) \<and> \<not> is_space (last s))"
  with False have h: "\<not> is_space (hd s)" and l: "\<not> is_space (last s)" by auto
  from h have 1: "dropWhile is_space s = s" by (simp add: dropWhile_eq_self_iff)
  from False have "hd (rev s) = last s" by (simp add: hd_rev)
  with l have "dropWhile is_space (rev s) = rev s" by (simp add: dropWhile_eq_self_iff)
  with 1 show ?thesis by (simp add: trim_def)
qed

lemma join_sp_ends:
  "good_words ws \<Longrightarrow> ws \<noteq> [] \<Longrightarrow>
     join_sp ws \<noteq> [] \<and> \<not> is_space (hd (join_sp ws)) \<and> \<not> is_space (last (join_sp ws))"
proof (induction ws rule: join_sp.induct)
  case 1
  then show ?case by simp
next
  case (2 w)
  then show ?case by (cases w) (auto simp: good_words_def)
next
  case (3 w v ws)
  then have "good_words (v # ws)" by (simp add: good_words_def)
  with 3 have "join_sp (v # ws) \<noteq> []" "\<not> is_space (last (join_sp (v # ws)))" by auto
  moreover from 3(2) have "w \<noteq> []" "\<not> is_space (hd w)" by (auto simp: good_words_def)
  ultimately show ?case by (cases w) auto
qed

lemma trim_join_sp: "good_words ws \<Longrightarrow> trim (join_sp ws) = join_sp ws"
proof (cases "ws = []")
  case True
  then show ?thesis by (simp add: trim_def)
next
  case False
  assume "good_words ws"
  from join_sp_ends [OF this False] show ?thesis by (intro trim_id) simp
qed

lemma split_ws_token:
  "\<forall>c\<in>set w. \<not> is_space c \<Longrightarrow> split_ws (w @ s) = (w @ hd (split_ws s)) # tl (split_ws s)"
proof (induction w)
  case Nil
  then show ?case using split_ws_ne [of s] by simp
next
  case (Cons c w)
  then show ?case by simp
qed

lemma split_ws_space:
  "s \<noteq> [] \<Longrightarrow> \<not> is_space (hd s) \<Longrightarrow> split_ws (CHR '' '' # s) = [] # split_ws s"
  by (cases s) (simp_all add: space_is_space)

lemma split_join:
  "good_words ws \<Longrightarrow> ws \<noteq> [] \<Longrightarrow> split_ws (join_sp ws) = ws"
proof (induction ws rule: join_sp.induct)
  case 1
  then show ?case by simp
next
  case (2 w)
  then have "\<forall>c\<in>set w. \<not> is_space c" by (simp add: good_words_def)
  from split_ws_token [OF this, of "[]"] show ?case by simp
next
  case (3 w v ws)
  then have g: "good_words (v # ws)" and w: "\<forall>c\<in>set w. \<not> is_space c"
    by (simp_all add: good_words_def)
  from 3 g have ih: "split_ws (join_sp (v # ws)) = v # ws" by simp
  from join_sp_ends [OF g] have "join_sp (v # ws) \<noteq> []" "\<not> is_space (hd (join_sp (v # ws)))"
    by simp_all
  from split_ws_space [OF this] ih
  have "split_ws (CHR '' '' # join_sp (v # ws)) = [] # v # ws" by simp
  with split_ws_token [OF w, of "CHR '' '' # join_sp (v # ws)"] show ?case by simp
qed

lemma set_join_sp: "set (join_sp ws) \<subseteq> insert CHR '' '' (\<Union> (set ` set ws))"
  by (induction ws rule: join_sp.induct) auto

lemma set_words: "set (join_sp (filter (\<lambda>w. w \<noteq> []) (split_ws u))) \<subseteq> insert CHR '' '' (set u)"
proof -
  have "\<Union> (set ` set (split_ws u)) = set (concat (split_ws u))" by simp
  also have "\<dots> \<subseteq> set u" by (simp add: concat_split_ws)
  finally have "\<Union> (set ` set (filter (\<lambda>w. w \<noteq> []) (split_ws u))) \<subseteq> set u" by auto
  with set_join_sp [of "filter (\<lambda>w. w \<noteq> []) (split_ws u)"] show ?thesis by blast
qed

subsection \<open>Global replacement and the bracket patterns\<close>

lemma bracket_patterns:
  "pattern reBracketed = bracket_pat CHR ''['' CHR '']''" "\<not> ignoreCase reBracketed"
  "pattern reParenthesized = bracket_pat CHR ''('' CHR '')''" "\<not> ignoreCase reParenthesized"
  "globalFlag reBracketed" "globalFlag reParenthesized"
  by (simp_all add: reBracketed_def reParenthesized_def bracket_pat_def)

lemma item_ch_match: "item_match False (Ch c) x \<longleftrightarrow> x = c"
  by (auto simp: item_match_def dest: code_inj)

lemma ch_match: "cmatch False (OneOf [Ch c]) x \<longleftrightarrow> x = c"
  by (simp add: item_ch_match)

lemma not_ch_match: "cmatch False (NoneOf [Ch c]) x \<longleftrightarrow> x \<noteq> c"
  by (simp add: item_ch_match)

lemma greedy_complete:
  "list_all p w \<Longrightarrow> \<exists>pv'. (pv', r) \<in> set (greedy p 0 None pv (w @ r))"
proof (induction w arbitrary: pv)
  case Nil
  then show ?case by (cases r) auto
next
  case (Cons c w)
  then obtain pv' where "(pv', r) \<in> set (greedy p 0 None (Some c) (w @ r))" by auto
  with Cons.prems show ?case by auto
qed

lemma bracket_complete:
  assumes "rest st = a # xs" "b \<in> set xs"
  shows "ms False (bracket_pat a b) st \<noteq> []"
proof -
  from assms(2) obtain w r where xs: "xs = w @ b # r" "b \<notin> set w"
    by (meson split_list_first)
  define s1 where "s1 = st\<lparr>prev := Some a, rest := xs\<rparr>"
  have 1: "s1 \<in> set (ms False (lit a) st)"
    using assms(1) by (simp add: in_ms_lit s1_def item_ch_match)
  have "list_all (cmatch False (NoneOf [Ch b])) w"
    using xs(2) by (auto simp: list_all_iff not_ch_match simp del: cmatch.simps)
  from greedy_complete [OF this, of "b # r" "Some a"] obtain pv' where
    g: "(pv', b # r) \<in> set (greedy (cmatch False (NoneOf [Ch b])) 0 None (Some a) xs)"
    using xs(1) by auto
  define s2 where "s2 = s1\<lparr>prev := pv', rest := b # r\<rparr>"
  from g have 2: "s2 \<in> set (ms False (star (NoneOf [Ch b])) s1)"
    by (force simp: star_def s2_def s1_def simp del: cmatch.simps)
  have 3: "s2\<lparr>prev := Some b, rest := r\<rparr> \<in> set (ms False (lit b) s2)"
    by (simp add: in_ms_lit s2_def item_ch_match)
  from 1 2 3 have "s2\<lparr>prev := Some b, rest := r\<rparr> \<in> set (ms False (bracket_pat a b) st)"
    unfolding bracket_pat_def in_ms_seqs_Cons in_ms_seqs_Nil by blast
  then show ?thesis by auto
qed

lemma bracket_sound:
  assumes "st \<in> set (ms False (bracket_pat a b) st0)"
  shows "\<exists>v. rest st0 = a # v @ b # rest st"
proof -
  from assms obtain s1 s2 where 1: "s1 \<in> set (ms False (lit a) st0)"
    and 2: "s2 \<in> set (ms False (Rep 0 None (NoneOf [Ch b])) s1)"
    and 3: "st \<in> set (ms False (lit b) s2)"
    unfolding bracket_pat_def in_ms_seqs_Cons in_ms_seqs_Nil star_def by blast
  from 1 have a: "rest st0 = a # rest s1" by (auto simp: in_ms_lit item_ch_match)
  from in_ms_Rep [OF 2] obtain v where v: "rest s1 = v @ rest s2" by blast
  from 3 have b: "rest s2 = b # rest st" by (auto simp: in_ms_lit item_ch_match)
  from a v b show ?thesis by simp
qed

lemma replace_from_cases:
  obtains (nomatch) "ms (ignoreCase re) (pattern re) (start_state pre (x # xs)) = []"
      "replace_from re rep pre 0 (x # xs) = x # replace_from re rep (pre @ [x]) 0 xs"
  | (empty) st sts where "ms (ignoreCase re) (pattern re) (start_state pre (x # xs)) = st # sts"
      "length (x # xs) - length (rest st) = 0"
      "replace_from re rep pre 0 (x # xs) = rep @ x # replace_from re rep (pre @ [x]) 0 xs"
  | (match) st sts where "ms (ignoreCase re) (pattern re) (start_state pre (x # xs)) = st # sts"
      "length (x # xs) - length (rest st) \<noteq> 0"
      "replace_from re rep pre 0 (x # xs) =
         rep @ replace_from re rep (pre @ [x]) (length (x # xs) - length (rest st) - 1) xs"
proof (cases "ms (ignoreCase re) (pattern re) (start_state pre (x # xs))")
  case Nil
  then show ?thesis by (intro nomatch) simp_all
next
  case (Cons st sts)
  show ?thesis
  proof (cases "length (x # xs) - length (rest st) = 0")
    case True
    with Cons show ?thesis by (intro empty [of st sts]) simp_all
  next
    case False
    with Cons show ?thesis by (intro match [of st sts]) (simp_all add: Let_def)
  qed
qed

lemma set_replace_from: "set (replace_from re rep pre k s) \<subseteq> set s \<union> set rep"
proof (induction s arbitrary: pre k)
  case Nil
  then show ?case by auto
next
  case (Cons x xs)
  show ?case
  proof (cases k)
    case (Suc k')
    with Cons [of "pre @ [x]" k'] show ?thesis by auto
  next
    case 0
    show ?thesis
    proof (cases rule: replace_from_cases [of re pre x xs rep])
      case nomatch
      with 0 Cons [of "pre @ [x]" 0] show ?thesis by auto
    next
      case (empty st sts)
      with 0 Cons [of "pre @ [x]" 0] show ?thesis by auto
    next
      case (match st sts)
      with 0 Cons [of "pre @ [x]" "length (x # xs) - length (rest st) - 1"] show ?thesis by auto
    qed
  qed
qed

lemma nopair_absent: "a \<notin> set s \<Longrightarrow> nopair a b s"
  by (induction s) auto

lemma nopair_replace_from:
  assumes "a \<notin> set rep" "b \<notin> set rep"
  shows "nopair a b s \<Longrightarrow> nopair a b (replace_from re rep pre k s)"
proof (induction s arbitrary: pre k)
  case Nil
  then show ?case using assms by (simp add: nopair_absent)
next
  case (Cons x xs)
  from Cons.prems have nx: "x = a \<longrightarrow> b \<notin> set xs" and nxs: "nopair a b xs" by simp_all
  note IH = Cons.IH [OF nxs]
  have keep: "nopair a b (x # replace_from re rep (pre @ [x]) 0 xs)"
    using IH [of "pre @ [x]" 0] nx set_replace_from [of re rep "pre @ [x]" 0 xs] assms(2) by auto
  show ?case
  proof (cases k)
    case (Suc k')
    with IH [of "pre @ [x]" k'] show ?thesis by simp
  next
    case 0
    show ?thesis
    proof (cases rule: replace_from_cases [of re pre x xs rep])
      case nomatch
      with 0 keep show ?thesis by simp
    next
      case (empty st sts)
      with 0 keep assms show ?thesis by (simp add: nopair_append nopair_absent)
    next
      case (match st sts)
      with 0 IH [of "pre @ [x]" "length (x # xs) - length (rest st) - 1"] assms show ?thesis
        by (simp add: nopair_append nopair_absent)
    qed
  qed
qed

lemma nopair_replace_bracket:
  assumes "a \<notin> set rep" "b \<notin> set rep" "pattern re = bracket_pat a b" "\<not> ignoreCase re"
  shows "nopair a b (replace_from re rep pre k s)"
proof (induction s arbitrary: pre k)
  case Nil
  then show ?case using assms by (simp add: nopair_absent)
next
  case (Cons x xs)
  note IH = Cons.IH
  show ?case
  proof (cases k)
    case (Suc k')
    with IH [of "pre @ [x]" k'] show ?thesis by simp
  next
    case 0
    show ?thesis
    proof (cases rule: replace_from_cases [of re pre x xs rep])
      case nomatch
      have "x = a \<longrightarrow> b \<notin> set xs"
      proof (intro impI notI)
        assume "x = a" "b \<in> set xs"
        then have "ms False (bracket_pat a b) (start_state pre (x # xs)) \<noteq> []"
          by (intro bracket_complete [of _ a xs]) (simp_all add: start_state_def)
        with nomatch(1) assms show False by simp
      qed
      with IH [of "pre @ [x]" 0] set_replace_from [of re rep "pre @ [x]" 0 xs] assms(2)
      have "nopair a b (x # replace_from re rep (pre @ [x]) 0 xs)" by auto
      with 0 nomatch show ?thesis by simp
    next
      case (empty st sts)
      then have "st \<in> set (ms False (bracket_pat a b) (start_state pre (x # xs)))"
        using assms by simp
      from bracket_sound [OF this] obtain v where "x # xs = a # v @ b # rest st"
        by (auto simp: start_state_def)
      then have "length (x # xs) = length (a # v @ b # rest st)" by simp
      with empty(2) show ?thesis by simp
    next
      case (match st sts)
      with 0 IH [of "pre @ [x]" "length (x # xs) - length (rest st) - 1"] assms show ?thesis
        by (simp add: nopair_append nopair_absent)
    qed
  qed
qed

lemma replace_bracket_noop:
  assumes "pattern re = bracket_pat a b" "\<not> ignoreCase re"
  shows "nopair a b s \<Longrightarrow> replace_from re rep pre 0 s = s"
proof (induction s arbitrary: pre)
  case Nil
  have "ms False (bracket_pat a b) (start_state pre []) = []"
  proof (rule ccontr)
    assume "ms False (bracket_pat a b) (start_state pre []) \<noteq> []"
    then obtain st where "st \<in> set (ms False (bracket_pat a b) (start_state pre []))"
      by (cases "ms False (bracket_pat a b) (start_state pre [])") auto
    from bracket_sound [OF this] show False by (simp add: start_state_def)
  qed
  with assms show ?case by simp
next
  case (Cons x xs)
  have "ms False (bracket_pat a b) (start_state pre (x # xs)) = []"
  proof (rule ccontr)
    assume "ms False (bracket_pat a b) (start_state pre (x # xs)) \<noteq> []"
    then obtain st where "st \<in> set (ms False (bracket_pat a b) (start_state pre (x # xs)))"
      by (cases "ms False (bracket_pat a b) (start_state pre (x # xs))") auto
    from bracket_sound [OF this] obtain v where "x # xs = a # v @ b # rest st"
      by (auto simp: start_state_def)
    with Cons.prems show False by auto
  qed
  with assms Cons show ?case by simp
qed

lemma replace_class_noop:
  assumes "pattern re = Atom cls"
  shows "\<forall>c\<in>set s. \<not> cmatch (ignoreCase re) cls c \<Longrightarrow> replace_from re rep pre 0 s = s"
  using assms by (induction s arbitrary: pre) (simp_all add: start_state_def)

lemma replace_class_removes:
  assumes "pattern re = Atom cls"
  shows "c \<in> set (replace_from re rep pre k s) \<Longrightarrow> cmatch (ignoreCase re) cls c \<Longrightarrow> c \<in> set rep"
proof (induction s arbitrary: pre k)
  case Nil
  then show ?case by (simp split: if_splits)
next
  case (Cons x xs)
  show ?case
  proof (cases k)
    case (Suc k')
    with Cons show ?thesis by simp
  next
    case 0
    show ?thesis
    proof (cases "cmatch (ignoreCase re) cls x")
      case True
      with 0 Cons.prems assms have "c \<in> set (rep @ replace_from re rep (pre @ [x]) 0 xs)"
        by (simp add: start_state_def)
      with Cons.IH [of "pre @ [x]" 0] Cons.prems(2) show ?thesis by auto
    next
      case False
      with 0 Cons.prems assms have "c \<in> set (x # replace_from re rep (pre @ [x]) 0 xs)"
        by (simp add: start_state_def)
      with Cons.IH [of "pre @ [x]" 0] Cons.prems(2) False show ?thesis by auto
    qed
  qed
qed

subsection \<open>The shape of a title\<close>

lemma class_patterns:
  "pattern reDotUnderscore = Atom (OneOf [Ch CHR ''.'', Ch CHR ''_''])" "\<not> ignoreCase reDotUnderscore"
  "globalFlag reDotUnderscore"
  "pattern reDash = Atom (OneOf [Ch CHR ''-''])" "\<not> ignoreCase reDash" "globalFlag reDash"
  by (simp_all add: reDotUnderscore_def reDash_def lit_def)

lemma replace_global: "globalFlag re \<Longrightarrow> replace s re rep = replace_from re rep [] 0 s"
  by (simp add: replace_def)

lemma clean_up_words:
  "clean_up w = join_sp (filter (\<lambda>w. w \<noteq> [])
     (split_ws (replace (replace w reDotUnderscore '' '') reDash '' '')))"
  by (simp add: clean_up_def trim_join_sp good_words_split)

lemma clean_up_chars:
  assumes "c \<in> set (clean_up w)"
  shows "c \<noteq> CHR ''.'' \<and> c \<noteq> CHR ''_'' \<and> c \<noteq> CHR ''-''"
proof -
  define u1 where "u1 = replace_from reDotUnderscore '' '' [] 0 w"
  define u where "u = replace_from reDash '' '' [] 0 u1"
  have cu: "clean_up w = join_sp (filter (\<lambda>w. w \<noteq> []) (split_ws u))"
    by (simp add: clean_up_words replace_global class_patterns u_def u1_def)
  with assms set_words [of u] have c: "c = CHR '' '' \<or> c \<in> set u" by auto
  have 1: "c \<in> set u \<Longrightarrow> c \<noteq> CHR ''-''"
    using replace_class_removes [OF class_patterns(4), of c "'' ''" "[]" 0 u1]
    by (auto simp: u_def class_patterns item_ch_match)
  have "c \<in> set u \<Longrightarrow> c \<noteq> CHR '' '' \<Longrightarrow> c \<in> set u1"
    using set_replace_from [of reDash "'' ''" "[]" 0 u1] by (auto simp: u_def)
  moreover have "c \<in> set u1 \<Longrightarrow> c \<noteq> CHR ''.'' \<and> c \<noteq> CHR ''_''"
    using replace_class_removes [OF class_patterns(1), of c "'' ''" "[]" 0 w]
    by (auto simp: u1_def class_patterns item_ch_match)
  ultimately show ?thesis using c 1 by auto
qed

lemma clean_up_nopair:
  assumes "\<not> is_space a" "\<not> is_space b" "nopair a b w"
  shows "nopair a b (clean_up w)"
proof -
  define u where "u = replace_from reDash '' '' [] 0 (replace_from reDotUnderscore '' '' [] 0 w)"
  from assms(1,2) have ab: "a \<notin> set '' ''" "b \<notin> set '' ''" using space_is_space by auto
  have nu: "nopair a b u"
    unfolding u_def by (intro nopair_replace_from ab assms(3))
  have cu: "clean_up w = join_sp (filter (\<lambda>w. w \<noteq> []) (split_ws u))"
    by (simp add: clean_up_words replace_global class_patterns u_def)
  have "nopair a b (clean_up w) = nopair a b (filter (\<lambda>c. \<not> is_space c) (clean_up w))"
    using assms(1,2) by (intro nopair_filter [symmetric]) auto
  also have "\<dots> = nopair a b (filter (\<lambda>c. \<not> is_space c) u)"
    by (simp add: cu filter_words)
  also have "\<dots> = nopair a b u"
    using assms(1,2) by (intro nopair_filter) auto
  finally show ?thesis using nu by simp
qed

lemma clean_up_fix:
  assumes "good_words ws" "ws \<noteq> []"
    and "\<forall>c\<in>set (join_sp ws). c \<noteq> CHR ''.'' \<and> c \<noteq> CHR ''_'' \<and> c \<noteq> CHR ''-''"
  shows "clean_up (join_sp ws) = join_sp ws"
proof -
  have 1: "replace_from reDotUnderscore '' '' [] 0 (join_sp ws) = join_sp ws"
    using assms(3) by (intro replace_class_noop [OF class_patterns(1)])
      (simp add: class_patterns item_ch_match)
  have 2: "replace_from reDash '' '' [] 0 (join_sp ws) = join_sp ws"
    using assms(3) by (intro replace_class_noop [OF class_patterns(4)])
      (simp add: class_patterns item_ch_match)
  have 3: "filter (\<lambda>w. w \<noteq> []) ws = ws" using assms(1) by (auto simp: good_words_def)
  show ?thesis
    by (simp add: clean_up_words replace_global class_patterns 1 2 split_join [OF assms(1,2)] 3)
qed

lemma exec_reYear_nopair:
  assumes "nopair CHR ''('' CHR '')'' s"
  shows "exec reYear s = None"
proof (rule ccontr)
  assume "exec reYear s \<noteq> None"
  then obtain m where m: "exec reYear s = Some m" by auto
  have ic: "ignoreCase reYear = False" by (simp add: reYear_def)
  from exec_Some [OF m] obtain st where
    st: "st \<in> set (ms False (pattern reYear) (start_state (m_pre m) (m_text m @ m_post m)))"
    and s: "s = m_pre m @ m_text m @ m_post m"
    unfolding ic by blast
  from st obtain s1 s2 where 1: "s1 \<in> set (ms False (lit CHR ''('') (start_state (m_pre m) (m_text m @ m_post m)))"
    and 2: "s2 \<in> set (ms False (Group 1 (Rep 4 (Some 4) (OneOf [Digit]))) s1)"
    and 3: "st \<in> set (ms False (lit CHR '')'') s2)"
    by (auto simp: reYear_def in_ms_seqs_Cons in_ms_seqs_Nil simp del: ms.simps seqs.simps)
  from 1 have a: "m_text m @ m_post m = CHR ''('' # rest s1"
    by (auto simp: in_ms_lit item_ch_match start_state_def)
  from in_ms_Group_Rep [OF 2] obtain v where v: "rest s1 = v @ rest s2" by blast
  from 3 have b: "rest s2 = CHR '')'' # rest st" by (auto simp: in_ms_lit item_ch_match)
  from s a v b have "s = m_pre m @ CHR ''('' # v @ CHR '')'' # rest st" by simp
  with assms pair_not_nopair show False by metis
qed

lemma exec_reGroup_nopair:
  assumes "nopair CHR ''['' CHR '']'' s"
  shows "exec reGroup s = None"
proof (rule ccontr)
  assume "exec reGroup s \<noteq> None"
  then obtain m where m: "exec reGroup s = Some m" by auto
  have ic: "ignoreCase reGroup = False" by (simp add: reGroup_def)
  from exec_Some [OF m] obtain st where
    st: "st \<in> set (ms False (pattern reGroup) (start_state (m_pre m) (m_text m @ m_post m)))"
    and s: "s = m_pre m @ m_text m @ m_post m"
    unfolding ic by blast
  from st obtain s0 s1 s2 where 0: "s0 \<in> set (ms False Bol (start_state (m_pre m) (m_text m @ m_post m)))"
    and 1: "s1 \<in> set (ms False (lit CHR ''['') s0)"
    and 2: "s2 \<in> set (ms False (Group 1 (Rep 1 None (NoneOf [Ch CHR '']'']))) s1)"
    and 3: "st \<in> set (ms False (lit CHR '']'') s2)"
    by (auto simp: reGroup_def plus_def in_ms_seqs_Cons in_ms_seqs_Nil simp del: ms.simps seqs.simps)
  from 0 have "rest s0 = m_text m @ m_post m" by (auto simp: start_state_def split: if_splits)
  with 1 have a: "m_text m @ m_post m = CHR ''['' # rest s1"
    by (auto simp: in_ms_lit item_ch_match)
  from in_ms_Group_Rep [OF 2] obtain v where v: "rest s1 = v @ rest s2" by blast
  from 3 have b: "rest s2 = CHR '']'' # rest st" by (auto simp: in_ms_lit item_ch_match)
  from s a v b have "s = m_pre m @ CHR ''['' # v @ CHR '']'' # rest st" by simp
  with assms pair_not_nopair show False by metis
qed

lemma exec_reExtension_nodot:
  assumes "CHR ''.'' \<notin> set s"
  shows "exec reExtension s = None"
proof (rule ccontr)
  assume "exec reExtension s \<noteq> None"
  then obtain m where m: "exec reExtension s = Some m" by auto
  have ic: "ignoreCase reExtension = False" by (simp add: reExtension_def)
  from exec_Some [OF m] obtain st where
    st: "st \<in> set (ms False (pattern reExtension) (start_state (m_pre m) (m_text m @ m_post m)))"
    and s: "s = m_pre m @ m_text m @ m_post m"
    unfolding ic by blast
  from st obtain s1 where 1: "s1 \<in> set (ms False (lit CHR ''.'') (start_state (m_pre m) (m_text m @ m_post m)))"
    by (auto simp: reExtension_def in_ms_seqs_Cons simp del: ms.simps seqs.simps)
  then have a: "m_text m @ m_post m = CHR ''.'' # rest s1"
    by (auto simp: in_ms_lit item_ch_match start_state_def)
  with s have "s = m_pre m @ CHR ''.'' # rest s1" by simp
  with assms show False by auto
qed

lemma extractTitle_shape:
  "\<exists>w7. extractTitle s r =
     (if clean_up (replace (replace w7 reBracketed '' '') reParenthesized '' '') = [] then None
      else Some (clean_up (replace (replace w7 reBracketed '' '') reParenthesized '' '')))"
  unfolding extractTitle_def Let_def by (rule exI) (rule refl)

lemma bracket_chars_not_space:
  "\<not> is_space CHR ''[''" "\<not> is_space CHR '']''" "\<not> is_space CHR ''(''" "\<not> is_space CHR '')''"
  by (simp_all add: is_space_def code_def)

lemma title_shape:
  assumes "extractTitle s r = Some t"
  shows "t \<noteq> []" and "\<exists>ws. good_words ws \<and> ws \<noteq> [] \<and> t = join_sp ws"
    and "\<forall>c\<in>set t. c \<noteq> CHR ''.'' \<and> c \<noteq> CHR ''_'' \<and> c \<noteq> CHR ''-''"
    and "nopair CHR ''['' CHR '']'' t" and "nopair CHR ''('' CHR '')'' t"
proof -
  from extractTitle_shape [of s r] assms obtain w7 where
    t: "t = clean_up (replace (replace w7 reBracketed '' '') reParenthesized '' '')" and ne: "t \<noteq> []"
    by (auto split: if_splits)
  define w8 where "w8 = replace_from reBracketed '' '' [] 0 w7"
  define w9 where "w9 = replace_from reParenthesized '' '' [] 0 w8"
  have t9: "t = clean_up w9" by (simp add: t replace_global bracket_patterns w8_def w9_def)
  show "t \<noteq> []" by (rule ne)
  have n8: "nopair CHR ''['' CHR '']'' w8"
    unfolding w8_def by (intro nopair_replace_bracket bracket_patterns) simp_all
  have n9: "nopair CHR ''['' CHR '']'' w9"
    unfolding w9_def by (intro nopair_replace_from n8) simp_all
  have p9: "nopair CHR ''('' CHR '')'' w9"
    unfolding w9_def by (intro nopair_replace_bracket bracket_patterns) simp_all
  show "nopair CHR ''['' CHR '']'' t" unfolding t9
    by (intro clean_up_nopair n9 bracket_chars_not_space)
  show "nopair CHR ''('' CHR '')'' t" unfolding t9
    by (intro clean_up_nopair p9 bracket_chars_not_space)
  show "\<forall>c\<in>set t. c \<noteq> CHR ''.'' \<and> c \<noteq> CHR ''_'' \<and> c \<noteq> CHR ''-''"
    unfolding t9 using clean_up_chars by blast
  let ?ws = "filter (\<lambda>w. w \<noteq> []) (split_ws (replace (replace w9 reDotUnderscore '' '') reDash '' ''))"
  have "t = join_sp ?ws" unfolding t9 by (rule clean_up_words)
  moreover from this ne have "?ws \<noteq> []" by auto
  ultimately show "\<exists>ws. good_words ws \<and> ws \<noteq> [] \<and> t = join_sp ws"
    using good_words_split by blast
qed

lemma title_fixpoint:
  assumes "extractTitle s r = Some t"
    and "exec reEpisodeV t = None" "exec reEpisodeRange t = None" "exec reEpisode t = None"
    and "exec reSeason t = None"
    and "\<not> truthy (group r')" "\<not> truthy (extension r')"
  shows "extractTitle t r' = Some t"
proof -
  note sh = title_shape [OF assms(1)]
  from sh(2) obtain ws where ws: "good_words ws" "ws \<noteq> []" "t = join_sp ws" by blast
  have cl: "clean_up t = t" using clean_up_fix [OF ws(1,2)] sh(3) ws(3) by simp
  have y: "replace t reYear '' '' = t"
    by (intro replace_None exec_reYear_nopair sh(5)) (simp add: reYear_def)
  have b: "replace t reBracketed '' '' = t"
    by (simp add: replace_global bracket_patterns replace_bracket_noop [OF bracket_patterns(1,2) sh(4)])
  have p: "replace t reParenthesized '' '' = t"
    by (simp add: replace_global bracket_patterns replace_bracket_noop [OF bracket_patterns(3,4) sh(5)])
  have e: "replace t reEpisodeV '' '' = t" "replace t reEpisodeRange '' '' = t"
    "replace t reEpisode '' '' = t" "replace t reSeason '' '' = t"
    using assms(2-5) by (simp_all add: replace_None nonglobal)
  have x: "(case extension r' of None \<Rightarrow> t
            | Some ext \<Rightarrow> if ext = [] then t
                else (case lastIndexOf t (CHR ''.'' # ext) of None \<Rightarrow> t | Some extPos \<Rightarrow> take extPos t)) = t"
    using assms(7) by (auto simp: truthy_def split: option.splits)
  show ?thesis
    unfolding extractTitle_def Let_def using assms(6)
    by (simp only: if_False x e y b p cl sh(1))
qed

lemma title_reparse:
  assumes "extractTitle s r = Some t"
    and "exec reEpisodeV t = None" "exec reEpisodeRange t = None" "exec reEpisode t = None"
    and "exec reSeason t = None"
  shows "\<exists>r'. parse t = Inr r' \<and> title r' = Some t"
proof -
  note sh = title_shape [OF assms(1)]
  from sh(2) obtain ws where ws: "good_words ws" "ws \<noteq> []" "t = join_sp ws" by blast
  have tr: "trim t = t" unfolding ws(3) by (rule trim_join_sp [OF ws(1)])
  with sh(1) obtain r' where r': "parse t = Inr r'" using parse_total [of t] by auto
  note f = js_parse_Inr [OF parse_Inr_js [OF r'], unfolded tr]
  from f(3) have g: "group r' = None"
    by (simp add: extractGroup_def exec_reGroup_nopair [OF sh(4)])
  have "CHR ''.'' \<notin> set t" using sh(3) by blast
  with f(4) have x: "extension r' = None"
    by (simp add: extractExtension_def exec_reExtension_nodot)
  from title_fixpoint [OF assms, of r'] g x have "extractTitle t r' = Some t"
    by (simp add: truthy_def)
  with f(15) r' show ?thesis by simp
qed

subsection \<open>Titles of sample inputs\<close>

lemma parse_title_plain:
  assumes "trim s = s" "s \<noteq> []" "exec reGroup s = None" "exec reExtension s = None"
  shows "\<exists>r. parse s = Inr r \<and> title r = extractTitle s (emptyResult s)"
proof -
  from assms(1,2) obtain r where r: "parse s = Inr r" using parse_total [of s] by auto
  note f = js_parse_Inr [OF parse_Inr_js [OF r], unfolded assms(1)]
  from f(3) assms(3) have g: "group r = None" by (simp add: extractGroup_def)
  from f(4) assms(4) have x: "extension r = None" by (simp add: extractExtension_def)
  have "extractTitle s r = extractTitle s (emptyResult s)"
    by (rule extractTitle_cong) (simp_all add: g x emptyResult_def)
  with f(15) r show ?thesis by simp
qed

lemma emptyResult_fields: "group (emptyResult s) = None" "extension (emptyResult s) = None"
  by (simp_all add: emptyResult_def)

lemma A12_steps:
  "trim ''A 1 2'' = ''A 1 2''"
  "exec reGroup ''A 1 2'' = None" "exec reExtension ''A 1 2'' = None"
  "replace ''A 1 2'' reEpisode '' '' = ''A  2''"
  "exec reSeason ''A  2'' = None" "exec reYear ''A  2'' = None"
  "replace ''A  2'' reBracketed '' '' = ''A  2''"
  "replace ''A  2'' reParenthesized '' '' = ''A  2''"
  "clean_up ''A  2'' = ''A 2''"
  by (simp_all add: clean_up_def ev)

lemma A2_steps:
  "trim ''A 2'' = ''A 2''"
  "exec reGroup ''A 2'' = None" "exec reExtension ''A 2'' = None"
  "exec reEpisodeV ''A 2'' = None" "exec reEpisodeRange ''A 2'' = None"
  "replace ''A 2'' reEpisode '' '' = ''A ''"
  "exec reSeason ''A '' = None" "exec reYear ''A '' = None"
  "replace ''A '' reBracketed '' '' = ''A ''"
  "replace ''A '' reParenthesized '' '' = ''A ''"
  "clean_up ''A '' = ''A''"
  by (simp_all add: clean_up_def ev)

lemma AB_steps:
  "trim ''A-B'' = ''A-B''"
  "exec reGroup ''A-B'' = None" "exec reExtension ''A-B'' = None"
  "exec reEpisodeV ''A-B'' = None" "exec reEpisodeRange ''A-B'' = None"
  "exec reEpisode ''A-B'' = None"
  "exec reSeason ''A-B'' = None" "exec reYear ''A-B'' = None"
  "replace ''A-B'' reBracketed '' '' = ''A-B''"
  "replace ''A-B'' reParenthesized '' '' = ''A-B''"
  "clean_up ''A-B'' = ''A B''"
  by (simp_all add: clean_up_def ev)

lemma AB_title_execs:
  "exec reEpisodeV ''A B'' = None" "exec reEpisodeRange ''A B'' = None"
  "exec reEpisode ''A B'' = None" "exec reSeason ''A B'' = None"
  by (simp_all add: ev)

lemma extractTitle_A12: "extractTitle ''A 1 2'' (emptyResult ''A 1 2'') = Some ''A 2''"
  by (simp add: extractTitle_def Let_def truthy_def emptyResult_fields replace_None nonglobal
      exec_V_A12 exec_range_A12 A12_steps)

lemma extractTitle_A2: "extractTitle ''A 2'' (emptyResult ''A 2'') = Some ''A''"
  by (simp add: extractTitle_def Let_def truthy_def emptyResult_fields replace_None nonglobal
      A2_steps)

lemma extractTitle_AB: "extractTitle ''A-B'' (emptyResult ''A-B'') = Some ''A B''"
  by (simp add: extractTitle_def Let_def truthy_def emptyResult_fields replace_None nonglobal
      AB_steps)

section \<open>The orchestrator\<close>

text \<open>
  Claim C2. \<open>parse\<close> raises \<open>EmptyInput\<close> exactly when the trimmed input is empty, so on
  \<open>""\<close> and on \<open>"   "\<close>; on every other input it returns a result, whose \<open>input\<close> field
  is the trimmed text. The same holds of \<open>JsHeuristicParser.parse\<close> behind it: no capture
  it reads is ever undefined, so it throws nothing else.
\<close>

theorem parse_EmptyInput_iff:
  "((\<exists>e. parse inp = Inl e \<and> is_EmptyInput e) \<longleftrightarrow> trim inp = [])
   \<and> ((\<exists>r. parse inp = Inr r \<and> input r = trim inp) \<longleftrightarrow> trim inp \<noteq> [])
   \<and> ((\<exists>e. js_parse inp = Inl e \<and> is_EmptyInput e) \<longleftrightarrow> trim inp = [])
   \<and> ((\<exists>r. js_parse inp = Inr r) \<longleftrightarrow> trim inp \<noteq> [])
   \<and> (\<exists>e. parse '''' = Inl e \<and> is_EmptyInput e)
   \<and> (\<exists>e. parse ''   '' = Inl e \<and> is_EmptyInput e)"
proof -
  have p1: "(\<exists>e. parse inp = Inl e \<and> is_EmptyInput e) \<longleftrightarrow> trim inp = []"
  proof
    assume "\<exists>e. parse inp = Inl e \<and> is_EmptyInput e"
    then show "trim inp = []" using parse_total [of inp] by (cases "trim inp = []") auto
  next
    assume "trim inp = []"
    then show "\<exists>e. parse inp = Inl e \<and> is_EmptyInput e"
      by (simp add: parse_empty is_EmptyInput_def)
  qed
  have p2: "(\<exists>r. parse inp = Inr r \<and> input r = trim inp) \<longleftrightarrow> trim inp \<noteq> []"
  proof
    assume "\<exists>r. parse inp = Inr r \<and> input r = trim inp"
    then show "trim inp \<noteq> []" by (auto simp: parse_def split: if_splits)
  next
    assume ne: "trim inp \<noteq> []"
    then obtain r where r: "parse inp = Inr r" using parse_total by blast
    with js_parse_Inr(2) [of inp r] show "\<exists>r. parse inp = Inr r \<and> input r = trim inp"
      by (auto dest: parse_Inr_js)
  qed
  have p3: "(\<exists>e. js_parse inp = Inl e \<and> is_EmptyInput e) \<longleftrightarrow> trim inp = []"
  proof
    assume "\<exists>e. js_parse inp = Inl e \<and> is_EmptyInput e"
    then show "trim inp = []" by (auto dest: js_parse_Inl)
  next
    assume "trim inp = []"
    then show "\<exists>e. js_parse inp = Inl e \<and> is_EmptyInput e"
      by (simp add: js_parse_def is_EmptyInput_def)
  qed
  have p4: "(\<exists>r. js_parse inp = Inr r) \<longleftrightarrow> trim inp \<noteq> []"
    using js_parse_total [of inp] js_parse_Inr(1) [of inp] by blast
  have p5: "\<exists>e. parse '''' = Inl e \<and> is_EmptyInput e"
    by (simp add: parse_def trim_def is_EmptyInput_def)
  have p6: "\<exists>e. parse ''   '' = Inl e \<and> is_EmptyInput e"
    by (simp add: parse_def trim_def is_space_def code_def is_EmptyInput_def)
  from p1 p2 p3 p4 p5 p6 show ?thesis by blast
qed

theorem parse_EmptyInput_iff_witness:
  "trim ''A 1 2'' \<noteq> [] \<and> (\<exists>r. parse ''A 1 2'' = Inr r \<and> input r = ''A 1 2'')
   \<and> trim ''   '' = [] \<and> (\<exists>e. parse ''   '' = Inl e \<and> is_EmptyInput e)"
proof -
  have t1: "trim ''A 1 2'' = ''A 1 2''" by (simp add: ev)
  have t2: "trim ''   '' = []" by (simp add: ev)
  from parse_EmptyInput_iff [of "''A 1 2''"] parse_EmptyInput_iff [of "''   ''"] t1 t2
  show ?thesis by simp
qed

text \<open>
  Claim C8. \<open>parseBatch\<close> parses every element: when each has a non-empty trimmed
  text, it returns the results in the order of the inputs; when an element is empty
  once trimmed and those before it are not, the whole call ends with the \<open>EmptyInput\<close>
  of that element, whatever follows it.
\<close>

theorem parseBatch_all_or_first_failure:
  "((\<forall>inp\<in>set inps. trim inp \<noteq> []) \<longrightarrow>
      (\<exists>rs. parseBatch inps = Inr rs \<and> map Inr rs = map parse inps))
   \<and> (\<forall>pre bad post. inps = pre @ bad # post \<and> (\<forall>x\<in>set pre. trim x \<noteq> []) \<and> trim bad = [] \<longrightarrow>
         (\<exists>e. parse bad = Inl e \<and> parseBatch inps = Inl e \<and> is_EmptyInput e))"
  using parseBatch_ok [of inps] parseBatch_fail
  by (auto simp: parse_empty is_EmptyInput_def)

theorem parseBatch_all_or_first_failure_witness:
  "(\<exists>rs. parseBatch [''a'', ''b''] = Inr rs \<and> map Inr rs = [parse ''a'', parse ''b''])
   \<and> parseBatch [''a'', '''', ''b''] = Inl (Error ''Input must be a non-empty string'')"
proof -
  have a: "trim ''a'' \<noteq> []" and b: "trim ''b'' \<noteq> []" and e: "trim '''' = []"
    by (simp_all add: ev)
  from parseBatch_all_or_first_failure [of "[''a'', ''b'']"] a b
  have 1: "\<exists>rs. parseBatch [''a'', ''b''] = Inr rs \<and> map Inr rs = [parse ''a'', parse ''b'']"
    by simp
  from parseBatch_all_or_first_failure [of "[''a'', '''', ''b'']"] a e
  have "\<exists>e. parse '''' = Inl e \<and> parseBatch [''a'', '''', ''b''] = Inl e \<and> is_EmptyInput e"
    by (elim conjE allE [of _ "[''a'']"] allE [of _ "''''"] allE [of _ "[''b'']"]) simp
  with 1 show ?thesis by (auto simp: parse_empty e)
qed

section \<open>Codecs and source\<close>

text \<open>
  Claim C1. The specification has \<open>parse\<close> find the video codec, the audio codec and
  the source by their aliases, and the test suite expects \<open>H264\<close> and \<open>AAC\<close> on the
  input below. \<open>JsHeuristicParser.parse\<close> sets the three fields to \<open>null\<close> and never
  assigns them again: on the test's own input all three stay \<open>None\<close>.
\<close>

theorem codecs_absent_at_test_input:
  "\<exists>r. parse ''One.Piece.1084.VOSTFR.1080p.WEB.x264-AAC.mkv'' = Inr r
       \<and> video_codec r = None \<and> audio_codec r = None \<and> source r = None"
proof -
  have "trim ''One.Piece.1084.VOSTFR.1080p.WEB.x264-AAC.mkv'' \<noteq> []" by (simp add: ev)
  then obtain r where r: "parse ''One.Piece.1084.VOSTFR.1080p.WEB.x264-AAC.mkv'' = Inr r"
    using parse_total by blast
  from js_parse_Inr(10,11,12) [OF parse_Inr_js [OF r]] r show ?thesis by blast
qed

section \<open>The episode resolver\<close>

text \<open>
  Claim C10. The episode of a result of \<open>parse\<close> is never a \<open>Multi\<close>: \<open>extractEpisode\<close>
  builds a versioned, a range or a single episode, or nothing.
\<close>

theorem parse_never_multi:
  "parse inp = Inr r \<Longrightarrow> episode r \<noteq> Some (Multi es)"
proof -
  assume "parse inp = Inr r"
  then have "episode r = extractEpisode (trim inp)"
    by (intro js_parse_Inr(9) parse_Inr_js)
  moreover have "extractEpisode (trim inp) \<noteq> Some (Multi es)"
    by (simp add: extractEpisode_def single_attempt_def Let_def split: option.splits)
  ultimately show ?thesis by simp
qed

theorem parse_never_multi_witness:
  "\<exists>r. parse ''A 1 2'' = Inr r \<and> episode r = Some (Single (Num 1)) \<and> episode r \<noteq> Some (Multi [])"
proof -
  have t: "trim ''A 1 2'' = ''A 1 2''" by (simp add: ev)
  then obtain r where r: "parse ''A 1 2'' = Inr r" using parse_total [of "''A 1 2''"] by auto
  from js_parse_Inr(9) [OF parse_Inr_js [OF r]] t extractEpisode_A12
  have "episode r = Some (Single (Num 1))" by simp
  with r parse_never_multi [OF r, of "[]"] show ?thesis by blast
qed

section \<open>Episodes, seasons, resolution, confidence and title\<close>

text \<open>
  Claim C3. \<open>extractEpisode\<close> makes three attempts in a fixed order. A match of the
  versioned pattern gives a versioned episode, whatever the other patterns do. Without
  one, a match of the range pattern with \<open>start < end\<close> gives a range. Without that,
  a match of the single pattern gives a single episode; and when the single pattern
  does not match either, the result is \<open>None\<close>: nothing is tried again. The episode of
  a result of \<open>parse\<close> is \<open>extractEpisode\<close> of the trimmed input.
\<close>

theorem extractEpisode_priority:
  "(\<forall>m. exec reEpisodeV s = Some m \<longrightarrow>
        extractEpisode s = Some (Versioned (parseInt10 (grp m 1)) (parseInt10 (grp m 2))))
   \<and> (\<forall>m. exec reEpisodeV s = None \<and> exec reEpisodeRange s = Some m
          \<and> num_less (parseInt10 (grp m 1)) (parseInt10 (grp m 2)) \<longrightarrow>
        extractEpisode s = Some (Range_ep (parseInt10 (grp m 1)) (parseInt10 (grp m 2))))
   \<and> (\<forall>m. exec reEpisodeV s = None
          \<and> (exec reEpisodeRange s = None
              \<or> (\<exists>m'. exec reEpisodeRange s = Some m'
                    \<and> \<not> num_less (parseInt10 (grp m' 1)) (parseInt10 (grp m' 2))))
          \<and> exec reEpisode s = Some m \<longrightarrow>
        extractEpisode s = Some (Single (parseInt10 (grp m 1))))
   \<and> (exec reEpisodeV s = None
        \<and> (exec reEpisodeRange s = None
            \<or> (\<exists>m'. exec reEpisodeRange s = Some m'
                  \<and> \<not> num_less (parseInt10 (grp m' 1)) (parseInt10 (grp m' 2))))
        \<and> exec reEpisode s = None \<longrightarrow>
      extractEpisode s = None)
   \<and> (\<forall>r. parse s = Inr r \<longrightarrow> episode r = extractEpisode (trim s))"
  by (auto simp: extractEpisode_def single_attempt_def Let_def
      dest: js_parse_Inr(9) [OF parse_Inr_js])

theorem extractEpisode_priority_witness:
  "extractEpisode '' 28v2'' = Some (Versioned (Num 28) (Num 2))
   \<and> extractEpisode '' 01-12'' = Some (Range_ep (Num 1) (Num 12))
   \<and> extractEpisode '' 12-05'' = Some (Single (Num 12))
   \<and> extractEpisode ''abc'' = None"
proof -
  from extractEpisode_priority [of "'' 28v2''"] exec_V_28v2
  have 1: "extractEpisode '' 28v2'' = Some (Versioned (Num 28) (Num 2))"
    by (simp add: grp_def parseInt10_samples)
  from extractEpisode_priority [of "'' 01-12''"] exec_V_range exec_range_range
  have 2: "extractEpisode '' 01-12'' = Some (Range_ep (Num 1) (Num 12))"
    by (simp add: grp_def parseInt10_samples)
  from extractEpisode_priority [of "'' 12-05''"] exec_V_badrange exec_range_badrange
    exec_single_badrange
  have 3: "extractEpisode '' 12-05'' = Some (Single (Num 12))"
    by (simp add: grp_def parseInt10_samples)
  from extractEpisode_priority [of "''abc''"] exec_none_abc
  have 4: "extractEpisode ''abc'' = None" by simp
  from 1 2 3 4 show ?thesis by simp
qed

text \<open>
  Claim C4 states that every episode \<open>parse\<close> returns has its variant's invariant, for
  a versioned episode a version of at least 1. The versioned pattern takes the version
  from \<open>v(\d+)\<close>, and nothing checks it: \<open>"Show - 28v0"\<close> gives version 0.
\<close>

theorem version_zero_counterexample:
  "map_sum id episode (parse ''Show - 28v0'') = Inr (Some (Versioned (Num 28) (Num 0)))
   \<and> \<not> spec_episode_invariant (Versioned (Num 28) (Num 0))"
proof -
  obtain r where r: "parse ''Show - 28v0'' = Inr r"
    using parse_total [of "''Show - 28v0''"] by (auto simp: trim_samples)
  from js_parse_Inr(9) [OF parse_Inr_js [OF r]]
  have "episode r = Some (Versioned (Num 28) (Num 0))"
    by (simp add: trim_samples extractEpisode_def exec_V_28v0 grp_def parseInt10_samples)
  with r show ?thesis by simp
qed

text \<open>
  Claim C4, amended. Every episode \<open>parse\<close> returns satisfies \<open>episode_invariant\<close>: a
  range has \<open>start < end\<close>, both integers of at least 0; a versioned episode has an
  episode that is an integer of at least 0 and a version of at least 0; a single
  episode is an integer of at least 0. The episode numbers are captures of
  \<open>\d{1,4}\<close> and so exact; the version is a capture of \<open>\d+\<close>, read by \<open>parseInt\<close> as
  the nearest number. When the range pattern matches a pair that is not increasing,
  \<open>extractEpisode\<close> gives what the single attempt gives.
\<close>

theorem parse_episode_invariant:
  "(\<forall>r e. parse inp = Inr r \<and> episode r = Some e \<longrightarrow> episode_invariant e)
   \<and> (\<forall>m. exec reEpisodeV inp = None \<and> exec reEpisodeRange inp = Some m
          \<and> \<not> num_less (parseInt10 (grp m 1)) (parseInt10 (grp m 2)) \<longrightarrow>
        extractEpisode inp = single_attempt inp)"
proof -
  have "episode_invariant e" if "parse inp = Inr r" "episode r = Some e" for r e
    using js_parse_Inr(9) [OF parse_Inr_js [OF that(1)]] that(2)
      extractEpisode_invariant [of "trim inp" e] by simp
  then show ?thesis by (auto simp: extractEpisode_def Let_def)
qed

theorem parse_episode_invariant_witness:
  "(\<exists>r. parse ''Show - 28v0'' = Inr r \<and> episode r = Some (Versioned (Num 28) (Num 0)))
   \<and> episode_invariant (Versioned (Num 28) (Num 0))
   \<and> extractEpisode '' 12-05'' = single_attempt '' 12-05''"
proof -
  obtain r where r: "parse ''Show - 28v0'' = Inr r"
    using parse_total [of "''Show - 28v0''"] by (auto simp: trim_samples)
  from js_parse_Inr(9) [OF parse_Inr_js [OF r]]
  have e: "episode r = Some (Versioned (Num 28) (Num 0))"
    by (simp add: trim_samples extractEpisode_def exec_V_28v0 grp_def parseInt10_samples)
  from parse_episode_invariant [of "''Show - 28v0''"] r e
  have 1: "episode_invariant (Versioned (Num 28) (Num 0))" by blast
  from parse_episode_invariant [of "'' 12-05''"] exec_V_badrange exec_range_badrange
  have 2: "extractEpisode '' 12-05'' = single_attempt '' 12-05''"
    by (simp add: grp_def parseInt10_samples)
  from r e 1 2 show ?thesis by blast
qed

text \<open>
  Claim C9 states that a season \<open>parse\<close> returns is a positive integer. The pattern is
  \<open>S(\d+)\<close> and nothing checks the number: \<open>"Show S00"\<close> gives season 0, and an \<open>S\<close>
  followed by a 1 and 309 zeros gives \<open>Infinity\<close>.
\<close>

theorem season_zero_counterexample:
  "map_sum id season (parse ''Show S00'') = Inr (Some (Num 0)) \<and> \<not> at_least_one (Num 0)
   \<and> map_sum id season (parse (CHR ''S'' # CHR ''1'' # replicate 309 CHR ''0'')) = Inr (Some PosInf)
   \<and> \<not> at_least_one PosInf"
proof -
  obtain r where r: "parse ''Show S00'' = Inr r"
    using parse_total [of "''Show S00''"] by (auto simp: trim_samples)
  from js_parse_Inr(7) [OF parse_Inr_js [OF r]]
  have 1: "season r = Some (Num 0)"
    by (simp add: trim_samples extractSeason_def exec_season_S00 grp_def parseInt10_samples)
  let ?big = "CHR ''S'' # CHR ''1'' # replicate 309 CHR ''0''"
  have t: "trim ?big = ?big" by (rule trim_id) (simp add: is_space_def code_def)
  obtain r' where r': "parse ?big = Inr r'"
    using parse_total [of ?big] by (auto simp: t)
  from js_parse_Inr(7) [OF parse_Inr_js [OF r']]
  have 2: "season r' = Some PosInf" by (simp only: t extractSeason_samples)
  from r 1 r' 2 show ?thesis by simp
qed

text \<open>
  Claim C9, amended. A season \<open>parse\<close> returns is a number of at least 0. The trimmed
  input holds an \<open>S\<close> or an \<open>s\<close>, at the start or after a white-space character or a
  dash, followed by a non-empty run of digits that ends at the end of the input or
  before a character that is no digit; the season is the number nearest to the value
  of that whole run: the value itself when it is below \<open>2^53\<close>, and \<open>Infinity\<close> when
  it is \<open>2^1024\<close> or more.
\<close>

theorem parse_season_token:
  "parse inp = Inr r \<Longrightarrow> season r = Some n \<Longrightarrow>
     \<exists>pre c ds post. trim inp = pre @ c # ds @ post
       \<and> (pre = [] \<or> is_space (last pre) \<or> last pre = CHR ''-'')
       \<and> (c = CHR ''S'' \<or> c = CHR ''s'') \<and> ds \<noteq> [] \<and> list_all is_digit ds
       \<and> (post = [] \<or> \<not> is_digit (hd post))
       \<and> n = to_double (digits_val ds) \<and> nonneg n
       \<and> (digits_val ds < 2 ^ 53 \<longrightarrow> n = Num (digits_val ds))
       \<and> (2 ^ 1024 \<le> digits_val ds \<longrightarrow> n = PosInf)"
proof -
  assume "parse inp = Inr r" "season r = Some n"
  with js_parse_Inr(7) [OF parse_Inr_js, of inp r] have "extractSeason (trim inp) = Some n"
    by simp
  from extractSeason_Some [OF this] obtain pre c ds post where
    *: "trim inp = pre @ c # ds @ post"
    "pre = [] \<or> is_space (last pre) \<or> last pre = CHR ''-''"
    "c = CHR ''S'' \<or> c = CHR ''s''" "ds \<noteq> []" "list_all is_digit ds"
    "post = [] \<or> \<not> is_digit (hd post)" "n = to_double (digits_val ds)" by blast
  from *(7) have "nonneg n" by (simp add: nonneg_to_double digits_val_nonneg)
  moreover from *(7) have "digits_val ds < 2 ^ 53 \<longrightarrow> n = Num (digits_val ds)"
    by (simp add: to_double_small digits_val_nonneg)
  moreover from *(7) have "2 ^ 1024 \<le> digits_val ds \<longrightarrow> n = PosInf"
    by (simp add: to_double_overflow)
  ultimately show ?thesis using * by blast
qed

theorem parse_season_token_witness:
  "\<exists>r. parse ''Show S00'' = Inr r \<and> season r = Some (Num 0)
     \<and> (\<exists>pre c ds post. ''Show S00'' = pre @ c # ds @ post
       \<and> (c = CHR ''S'' \<or> c = CHR ''s'') \<and> ds \<noteq> [] \<and> list_all is_digit ds
       \<and> Num 0 = to_double (digits_val ds) \<and> nonneg (Num 0))"
proof -
  obtain r where r: "parse ''Show S00'' = Inr r"
    using parse_total [of "''Show S00''"] by (auto simp: trim_samples)
  from js_parse_Inr(7) [OF parse_Inr_js [OF r]]
  have s: "season r = Some (Num 0)"
    by (simp add: trim_samples extractSeason_def exec_season_S00 grp_def parseInt10_samples)
  have "\<exists>pre c ds post. ''Show S00'' = pre @ c # ds @ post
       \<and> (c = CHR ''S'' \<or> c = CHR ''s'') \<and> ds \<noteq> [] \<and> list_all is_digit ds
       \<and> Num 0 = to_double (digits_val ds) \<and> nonneg (Num 0)"
    using parse_season_token [OF r s] unfolding trim_samples by blast
  with r s show ?thesis by blast
qed

text \<open>
  Claim C7. The specification has the resolution markers matched without regard to
  case, and the class declares the pattern \<^verbatim>\<open>/1080p|720p|480p|2160p/i\<close> for it, which
  matches \<open>"1080P"\<close>. \<open>extractResolution\<close> does not read the pattern: it tests
  \<open>input.includes('1080p')\<close>, which compares the characters as they are. On \<open>"1080P"\<close>,
  whose lower-case form contains the marker, it finds no resolution, and neither does
  \<open>parse\<close>.
\<close>

theorem resolution_upper_case_marker_missed:
  "contains (toLowerCase ''1080P'') ''1080p''
   \<and> exec reResolution ''1080P'' \<noteq> None
   \<and> extractResolution ''1080P'' = None
   \<and> map_sum id resolution (parse ''1080P'') = Inr None"
proof -
  have "''1080p'' = [] @ ''1080p'' @ []" by simp
  then have 1: "contains (toLowerCase ''1080P'') ''1080p''"
    unfolding contains_def toLowerCase_1080P by blast
  have t: "trim ''1080P'' = ''1080P''" by (simp add: ev)
  then obtain r where r: "parse ''1080P'' = Inr r" using parse_total [of "''1080P''"] by auto
  from js_parse_Inr(6) [OF parse_Inr_js [OF r]] have "resolution r = None"
    by (simp only: t extractResolution_1080P)
  with r 1 show ?thesis by (simp add: exec_reResolution_1080P extractResolution_1080P)
qed

text \<open>
  Claim C6 states that each present field adds to the numerator. On \<open>"[ ]abc"\<close> the group
  is present and empty (the trimmed capture of \<open>[ ]\<close>), \<open>if (result.group)\<close> is false
  for it, and the confidence is 2/8 where the claim's formula gives 3/8.
\<close>

theorem confidence_empty_group_counterexample:
  "map_sum id (\<lambda>r. (group r, title r, confidence r, spec_confidence r)) (parse ''[ ]abc'')
     = Inr (Some [], Some ''abc'', 1 / 4, 3 / 8)"
proof -
  from parse_bracket_abc obtain r where r: "parse ''[ ]abc'' = Inr r" "group r = Some []"
    "title r = Some ''abc''" "episode r = None" "resolution r = None" "video_codec r = None"
    "audio_codec r = None" "source r = None" "confidence r = computeConfidence r" by blast
  have n: "numerator r = 2" "denominator r = 8"
    using r by (simp_all add: numerator_def denominator_def truthy_def)
  have "confidence r = 1 / 4" using r(9) n by (simp add: computeConfidence_eq)
  moreover have "spec_confidence r = 3 / 8"
    using r by (simp add: spec_confidence_def spec_numerator_def spec_denominator_def)
  ultimately show ?thesis using r by simp
qed

text \<open>
  Claim C6, amended. The confidence is \<open>min (numerator / denominator) 1\<close>, where a
  title that is neither \<open>null\<close> nor empty adds 2 and makes the denominator 8 instead of
  7, a group that is neither \<open>null\<close> nor empty adds 1, and an episode, a resolution, a
  video codec, an audio codec and a source add 1 each when they are not \<open>null\<close>. It lies
  between 0 and 1, and it is the \<open>confidence\<close> field of every result of \<open>parse\<close>.
\<close>

theorem confidence_formula:
  "computeConfidence r = min (real (numerator r) / real (denominator r)) 1
   \<and> 0 \<le> computeConfidence r \<and> computeConfidence r \<le> 1
   \<and> (\<forall>inp. parse inp = Inr r \<longrightarrow> confidence r = computeConfidence r)"
  by (auto simp: computeConfidence_eq dest: js_parse_Inr(16) [OF parse_Inr_js])

theorem confidence_formula_witness:
  "\<exists>r. parse ''[ ]abc'' = Inr r \<and> confidence r = 1 / 4 \<and> numerator r = 2 \<and> denominator r = 8"
proof -
  from parse_bracket_abc obtain r where r: "parse ''[ ]abc'' = Inr r" "group r = Some []"
    "title r = Some ''abc''" "episode r = None" "resolution r = None" "video_codec r = None"
    "audio_codec r = None" "source r = None" by blast
  have n: "numerator r = 2" "denominator r = 8"
    using r by (simp_all add: numerator_def denominator_def truthy_def)
  from confidence_formula [of r] r(1) have "confidence r = computeConfidence r"
    and "computeConfidence r = min (real (numerator r) / real (denominator r)) 1" by blast+
  with n have "confidence r = 1 / 4" by simp
  with r(1) n show ?thesis by blast
qed

text \<open>
  Claim C5 states that normalizing a title again leaves it as it is. The episode
  patterns have no \<open>g\<close> flag, so \<open>replace\<close> removes the first match only: \<open>"A 1 2"\<close> has
  the title \<open>"A 2"\<close>, whose own title is \<open>"A"\<close>.
\<close>

theorem title_not_idempotent_counterexample:
  "map_sum id title (parse ''A 1 2'') = Inr (Some ''A 2'')
   \<and> map_sum id title (parse ''A 2'') = Inr (Some ''A'')
   \<and> extractTitle ''A 2'' (emptyResult ''A 2'') = Some ''A''"
proof -
  from parse_title_plain [of "''A 1 2''"] obtain r where
    "parse ''A 1 2'' = Inr r" "title r = Some ''A 2''"
    by (auto simp: A12_steps extractTitle_A12)
  moreover from parse_title_plain [of "''A 2''"] obtain r' where
    "parse ''A 2'' = Inr r'" "title r' = Some ''A''"
    by (auto simp: A2_steps extractTitle_A2)
  ultimately show ?thesis by (simp add: extractTitle_A2)
qed

text \<open>
  Claim C5, amended. When \<open>parse\<close> produces a title in which none of the versioned,
  range, single-episode and season patterns matches, normalizing that title again
  gives the same title: as the title of \<open>parse\<close> on it, and as \<open>extractTitle\<close> of it
  with no group and no extension.
\<close>

theorem title_idempotent_without_matches:
  assumes "parse inp = Inr r" "title r = Some t"
    and "exec reEpisodeV t = None" "exec reEpisodeRange t = None" "exec reEpisode t = None"
    and "exec reSeason t = None"
  shows "(\<exists>r'. parse t = Inr r' \<and> title r' = Some t) \<and> extractTitle t (emptyResult t) = Some t"
proof -
  from js_parse_Inr(15) [OF parse_Inr_js [OF assms(1)]] assms(2)
  have t: "extractTitle (trim inp) r = Some t" by simp
  from title_reparse [OF t assms(3-6)] title_fixpoint [OF t assms(3-6), of "emptyResult t"]
  show ?thesis by (simp add: truthy_def emptyResult_fields)
qed

theorem title_idempotent_without_matches_witness:
  "(\<exists>r. parse ''A-B'' = Inr r \<and> title r = Some ''A B'')
   \<and> exec reEpisodeV ''A B'' = None \<and> exec reEpisodeRange ''A B'' = None
   \<and> exec reEpisode ''A B'' = None \<and> exec reSeason ''A B'' = None
   \<and> (\<exists>r'. parse ''A B'' = Inr r' \<and> title r' = Some ''A B'')
   \<and> extractTitle ''A B'' (emptyResult ''A B'') = Some ''A B''"
proof -
  from parse_title_plain [of "''A-B''"] obtain r where
    r: "parse ''A-B'' = Inr r" "title r = Some ''A B''"
    by (auto simp: AB_steps extractTitle_AB)
  from title_idempotent_without_matches [OF r AB_title_execs] r AB_title_execs
  show ?thesis by blast
qed

end
